theory Spec2Isabelle
  imports Main "HOL-Library.Multiset" "HOL-Library.Product_Lexorder"
begin

section \<open>Strings\<close>

text \<open>
  A JavaScript string is a sequence of UTF-16 code units; a code unit is modelled by its
  number. \<open>str\<close> turns an ASCII literal of the source into such a sequence.
\<close>

type_synonym js_string = "nat list"

definition str :: "string \<Rightarrow> js_string" where
  "str s = map of_char s"

text \<open>The character class \<open>\d\<close>: the ASCII digits only.\<close>

definition is_digit :: "nat \<Rightarrow> bool" where
  "is_digit c \<longleftrightarrow> 48 \<le> c \<and> c \<le> 57"

text \<open>
  The character class \<open>\s\<close> of ECMAScript: white space and line terminators
  (tab, LF, VT, FF, CR, space, U+00A0, U+1680, U+2000 to U+200A, U+2028, U+2029, U+202F,
  U+205F, U+3000, U+FEFF).
\<close>

definition is_space :: "nat \<Rightarrow> bool" where
  "is_space c \<longleftrightarrow>
     (9 \<le> c \<and> c \<le> 13) \<or> c = 32 \<or> c = 160 \<or> c = 5760 \<or> (8192 \<le> c \<and> c \<le> 8202) \<or>
     c = 8232 \<or> c = 8233 \<or> c = 8239 \<or> c = 8287 \<or> c = 12288 \<or> c = 65279"

text \<open>A literal piece of a regular expression, matched at the start of the input.\<close>

definition strip_prefix :: "js_string \<Rightarrow> js_string \<Rightarrow> js_string option" where
  "strip_prefix p s = (if take (length p) s = p then Some (drop (length p) s) else None)"

section \<open>Numbers\<close>

text \<open>
  A JavaScript number is an IEEE double. The numbers of the version comparator are
  integers, the two infinities and NaN: \<open>parseInt\<close> of a run of digits returns the
  double nearest to the integer the digits write, and what the comparator returns is a
  constant or the difference of two such doubles.

  Every integer up to \<open>2 ^ 53\<close> in magnitude is a double. A larger integer of bit length
  \<open>l\<close> lies between two neighbouring doubles, multiples of \<open>2 ^ (l - 53)\<close>; it is rounded
  to the nearer one, and to the one with the even multiplier when it is halfway. A
  result of \<open>2 ^ 1024\<close> or more is an infinity.
\<close>

datatype number = Num int | PosInf | NegInf | NaN

function bit_length :: "int \<Rightarrow> nat" where
  "bit_length n = (if n \<le> 0 then 0 else Suc (bit_length (n div 2)))"
  by pat_completeness auto
termination
  by (relation "measure nat") auto

declare bit_length.simps [simp del]

definition round_magnitude :: "int \<Rightarrow> int" where
  "round_magnitude n =
     (let e = bit_length n - 53; q = n div 2 ^ e; r = n mod 2 ^ e
      in (if 2 ^ e < 2 * r \<or> (2 * r = 2 ^ e \<and> odd q) then q + 1 else q) * 2 ^ e)"

definition round_double :: "int \<Rightarrow> number" where
  "round_double n =
     (if \<bar>n\<bar> \<le> 2 ^ 53 then Num n
      else (let m = round_magnitude \<bar>n\<bar>
            in if 2 ^ 1024 \<le> m then (if 0 < n then PosInf else NegInf)
               else Num (if 0 < n then m else - m)))"

text \<open>
  Subtraction: the exact difference, rounded. An infinity minus itself is NaN; NaN
  stays NaN.
\<close>

fun js_minus :: "number \<Rightarrow> number \<Rightarrow> number" where
  "js_minus (Num a) (Num b) = round_double (a - b)"
| "js_minus NaN y = NaN"
| "js_minus x NaN = NaN"
| "js_minus PosInf PosInf = NaN"
| "js_minus NegInf NegInf = NaN"
| "js_minus PosInf y = PosInf"
| "js_minus NegInf y = NegInf"
| "js_minus x PosInf = NegInf"
| "js_minus x NegInf = PosInf"

text \<open>\<open>x !== y\<close> on numbers: NaN differs from every number, itself included.\<close>

definition strict_neq :: "number \<Rightarrow> number \<Rightarrow> bool" where
  "strict_neq x y \<longleftrightarrow> x = NaN \<or> y = NaN \<or> x \<noteq> y"

text \<open>\<open>x < 0\<close> and \<open>x > 0\<close>; both are false of NaN.\<close>

fun is_negative :: "number \<Rightarrow> bool" where
  "is_negative (Num n) \<longleftrightarrow> n < 0"
| "is_negative NegInf \<longleftrightarrow> True"
| "is_negative PosInf \<longleftrightarrow> False"
| "is_negative NaN \<longleftrightarrow> False"

fun is_positive :: "number \<Rightarrow> bool" where
  "is_positive (Num n) \<longleftrightarrow> 0 < n"
| "is_positive PosInf \<longleftrightarrow> True"
| "is_positive NegInf \<longleftrightarrow> False"
| "is_positive NaN \<longleftrightarrow> False"

text \<open>
  The numbers \<open>parseInt\<close> can return for a run of digits, and a key that orders them:
  a natural number below \<open>2 ^ 1024\<close> or the positive infinity, which lies above all of
  them.
\<close>

definition is_component :: "number \<Rightarrow> bool" where
  "is_component x \<longleftrightarrow> x = PosInf \<or> (\<exists>k. x = Num k \<and> 0 \<le> k \<and> k < 2 ^ 1024)"

fun number_key :: "number \<Rightarrow> int" where
  "number_key (Num k) = k"
| "number_key PosInf = 2 ^ 1024"
| "number_key NegInf = - (2 ^ 1024)"
| "number_key NaN = 0"

section \<open>Version Management\<close>

text \<open>
  \<open>parseVersion\<close> matches its argument against
  \<^verbatim>\<open>/^(\d+)\.(\d+)\.(\d+)(?:-(alpha|beta|rc)\.(\d+))?$/\<close>.
  The matcher below follows the expression from left to right and returns the capture
  groups. A greedy \<open>\d+\<close> takes the longest run of digits; giving a digit back never helps,
  since what follows \<open>\d+\<close> in the expression is a dot or the end of the input.
\<close>

definition match_number :: "js_string \<Rightarrow> (js_string \<times> js_string) option" where
  "match_number s =
     (let ds = takeWhile is_digit s
      in if ds = [] then None else Some (ds, dropWhile is_digit s))"

definition match_tag :: "js_string \<Rightarrow> (js_string \<times> js_string) option" where
  "match_tag s =
     (case strip_prefix (str ''alpha'') s of
        Some r \<Rightarrow> Some (str ''alpha'', r)
      | None \<Rightarrow>
          (case strip_prefix (str ''beta'') s of
             Some r \<Rightarrow> Some (str ''beta'', r)
           | None \<Rightarrow>
               (case strip_prefix (str ''rc'') s of
                  Some r \<Rightarrow> Some (str ''rc'', r)
                | None \<Rightarrow> None)))"

definition match_prerelease :: "js_string \<Rightarrow> (js_string \<times> js_string) option" where
  "match_prerelease s =
     (case strip_prefix (str ''-'') s of
        None \<Rightarrow> None
      | Some r1 \<Rightarrow>
          (case match_tag r1 of
             None \<Rightarrow> None
           | Some (t, r2) \<Rightarrow>
               (case strip_prefix (str ''.'') r2 of
                  None \<Rightarrow> None
                | Some r3 \<Rightarrow>
                    (case match_number r3 of
                       None \<Rightarrow> None
                     | Some (n, r4) \<Rightarrow> if r4 = [] then Some (t, n) else None))))"

text \<open>
  The groups of a match: major, minor, patch, and the pair of groups 4 and 5, which
  are both defined or both undefined.
\<close>

type_synonym version_groups =
  "js_string \<times> js_string \<times> js_string \<times> (js_string \<times> js_string) option"

definition match_version :: "js_string \<Rightarrow> version_groups option" where
  "match_version s =
     (case match_number s of
        None \<Rightarrow> None
      | Some (g1, r1) \<Rightarrow>
          (case strip_prefix (str ''.'') r1 of
             None \<Rightarrow> None
           | Some r2 \<Rightarrow>
               (case match_number r2 of
                  None \<Rightarrow> None
                | Some (g2, r3) \<Rightarrow>
                    (case strip_prefix (str ''.'') r3 of
                       None \<Rightarrow> None
                     | Some r4 \<Rightarrow>
                         (case match_number r4 of
                            None \<Rightarrow> None
                          | Some (g3, r5) \<Rightarrow>
                              if r5 = [] then Some (g1, g2, g3, None)
                              else (case match_prerelease r5 of
                                      None \<Rightarrow> None
                                    | Some pre \<Rightarrow> Some (g1, g2, g3, Some pre)))))))"

text \<open>
  \<open>parseInt(digits, 10)\<close> on a group matched by \<open>\d+\<close>: the integer the digits write,
  as a double. V8 reads every digit and rounds once; ECMAScript also lets an
  implementation read the digits after the twentieth as zeros, which changes nothing
  for a number of at most twenty digits or for one that overflows.
\<close>

definition decimal_value :: "js_string \<Rightarrow> int" where
  "decimal_value ds = foldl (\<lambda>n c. 10 * n + (int c - 48)) 0 ds"

definition parseInt :: "js_string \<Rightarrow> number" where
  "parseInt ds = round_double (decimal_value ds)"

text \<open>
  The decimal numeral of a number, to state what \<open>decimal_value\<close> reads: the value of
  the numeral of \<open>n\<close> is \<open>n\<close> (lemma \<open>decimal_value_decimal\<close> below).
\<close>

function decimal :: "nat \<Rightarrow> js_string" where
  "decimal n = (if n < 10 then [48 + n] else decimal (n div 10) @ [48 + n mod 10])"
  by pat_completeness auto
termination
  by (relation "measure id") auto

declare decimal.simps [simp del]

record ParsedVersion =
  major :: number
  minor :: number
  patch :: number
  prerelease :: "js_string option"
  prereleaseNum :: number

definition parseVersion :: "js_string \<Rightarrow> ParsedVersion" where
  "parseVersion version =
     (case match_version version of
        None \<Rightarrow>
          \<lparr>major = Num 0, minor = Num 0, patch = Num 0, prerelease = None,
           prereleaseNum = Num 0\<rparr>
      | Some (g1, g2, g3, pre) \<Rightarrow>
          \<lparr>major = parseInt g1, minor = parseInt g2, patch = parseInt g3,
           prerelease = map_option fst pre,
           prereleaseNum = (case pre of None \<Rightarrow> Num 0 | Some (t, n) \<Rightarrow> parseInt n)\<rparr>)"

text \<open>The table \<open>{ alpha: 1, beta: 2, rc: 3 }\<close>, read with \<open>|| 0\<close>.\<close>

definition prereleaseOrder :: "js_string \<Rightarrow> number" where
  "prereleaseOrder t =
     (if t = str ''alpha'' then Num 1 else if t = str ''beta'' then Num 2
      else if t = str ''rc'' then Num 3 else Num 0)"

definition compareVersions :: "js_string \<Rightarrow> js_string \<Rightarrow> number" where
  "compareVersions a b =
     (let vA = parseVersion a; vB = parseVersion b
      in if strict_neq (major vA) (major vB) then js_minus (major vA) (major vB)
         else if strict_neq (minor vA) (minor vB) then js_minus (minor vA) (minor vB)
         else if strict_neq (patch vA) (patch vB) then js_minus (patch vA) (patch vB)
         else if prerelease vA = None \<and> prerelease vB \<noteq> None then Num 1
         else if prerelease vA \<noteq> None \<and> prerelease vB = None then Num (- 1)
         else (case (prerelease vA, prerelease vB) of
                 (Some pA, Some pB) \<Rightarrow>
                   (let orderA = prereleaseOrder pA; orderB = prereleaseOrder pB
                    in if strict_neq orderA orderB then js_minus orderA orderB
                       else js_minus (prereleaseNum vA) (prereleaseNum vB))
               | _ \<Rightarrow> Num 0))"

text \<open>
  The key of a version string: the keys of its numbers, with the place of the prerelease
  tag (above the three tags when there is none) before the prerelease number. Tuples
  are ordered lexicographically.
\<close>

definition version_key :: "js_string \<Rightarrow> int \<times> int \<times> int \<times> int \<times> int" where
  "version_key s =
     (let v = parseVersion s
      in (number_key (major v), number_key (minor v), number_key (patch v),
          (case prerelease v of None \<Rightarrow> 4 | Some t \<Rightarrow> number_key (prereleaseOrder t)),
          number_key (prereleaseNum v)))"

text \<open>The prerelease number of a version string, if it has one, is finite.\<close>

definition finite_prerelease :: "js_string \<Rightarrow> bool" where
  "finite_prerelease s \<longleftrightarrow> prereleaseNum (parseVersion s) \<noteq> PosInf"

text \<open>
  The strings the pattern accepts, written out: three non-empty runs of digits separated
  by dots, and optionally a dash, one of the three tags, a dot and a non-empty run of
  digits. \<open>matches_version_pattern\<close> is the declarative reading of the regular
  expression; \<open>match_version\<close> above is the matcher that computes.
\<close>

definition digits :: "js_string \<Rightarrow> bool" where
  "digits ds \<longleftrightarrow> ds \<noteq> [] \<and> list_all is_digit ds"

definition starts_with_digit :: "js_string \<Rightarrow> bool" where
  "starts_with_digit r \<longleftrightarrow> (case r of [] \<Rightarrow> False | c # _ \<Rightarrow> is_digit c)"

definition is_tag :: "js_string \<Rightarrow> bool" where
  "is_tag t \<longleftrightarrow> t = str ''alpha'' \<or> t = str ''beta'' \<or> t = str ''rc''"

definition version_string ::
  "js_string \<Rightarrow> js_string \<Rightarrow> js_string \<Rightarrow> (js_string \<times> js_string) option \<Rightarrow> js_string" where
  "version_string g1 g2 g3 pre =
     g1 @ str ''.'' @ g2 @ str ''.'' @ g3 @
     (case pre of None \<Rightarrow> [] | Some (t, n) \<Rightarrow> str ''-'' @ t @ str ''.'' @ n)"

definition well_formed ::
  "js_string \<Rightarrow> js_string \<Rightarrow> js_string \<Rightarrow> (js_string \<times> js_string) option \<Rightarrow> bool" where
  "well_formed g1 g2 g3 pre \<longleftrightarrow>
     digits g1 \<and> digits g2 \<and> digits g3 \<and>
     (case pre of None \<Rightarrow> True | Some (t, n) \<Rightarrow> is_tag t \<and> digits n)"

definition matches_version_pattern :: "js_string \<Rightarrow> bool" where
  "matches_version_pattern s \<longleftrightarrow>
     (\<exists>g1 g2 g3 pre. well_formed g1 g2 g3 pre \<and> s = version_string g1 g2 g3 pre)"

text \<open>
  The runs of digits of a version write numbers of at most \<open>2 ^ 53\<close>, which
  \<open>parseInt\<close> returns as they are.
\<close>

definition exact_runs ::
  "js_string \<Rightarrow> js_string \<Rightarrow> js_string \<Rightarrow> (js_string \<times> js_string) option \<Rightarrow> bool" where
  "exact_runs g1 g2 g3 pre \<longleftrightarrow>
     decimal_value g1 \<le> 9007199254740992 \<and> decimal_value g2 \<le> 9007199254740992 \<and>
     decimal_value g3 \<le> 9007199254740992 \<and>
     (case pre of None \<Rightarrow> True | Some (t, n) \<Rightarrow> decimal_value n \<le> 9007199254740992)"

section \<open>Benchmark entries and the history store\<close>

datatype Mode = Benchmark | Inspect

record Sizes =
  raw :: int
  gzipped :: int

record BenchmarkEntry =
  timestamp :: js_string
  mode :: Mode
  vapor :: Sizes
  classic :: Sizes
  delta :: Sizes
  vueVersion :: js_string

text \<open>
  The history file holds \<open>{ benchmarks: [...] }\<close>; \<open>None\<close> stands for a file that is
  absent or does not parse, which \<open>readHistory\<close> reads as the empty history.
\<close>

type_synonym history_file = "BenchmarkEntry list option"

definition readHistory :: "history_file \<Rightarrow> BenchmarkEntry list" where
  "readHistory f = (case f of None \<Rightarrow> [] | Some benchmarks \<Rightarrow> benchmarks)"

text \<open>
  \<open>Array.prototype.sort\<close> with a comparison function is a stable sort; it puts \<open>x\<close>
  after \<open>y\<close> when the function returns a positive number for \<open>x\<close> and \<open>y\<close>, and reads
  NaN as zero. It is modelled by the stable insertion sort: an element is placed before
  the first element it does not exceed, the elements being inserted from the last to
  the first.
\<close>

fun insort_by :: "('a \<Rightarrow> 'a \<Rightarrow> number) \<Rightarrow> 'a \<Rightarrow> 'a list \<Rightarrow> 'a list" where
  "insort_by cmp x [] = [x]"
| "insort_by cmp x (y # ys) =
     (if is_positive (cmp x y) then y # insort_by cmp x ys else x # y # ys)"

definition sort_by :: "('a \<Rightarrow> 'a \<Rightarrow> number) \<Rightarrow> 'a list \<Rightarrow> 'a list" where
  "sort_by cmp xs = foldr (insort_by cmp) xs []"

definition writeHistory :: "BenchmarkEntry \<Rightarrow> history_file \<Rightarrow> history_file" where
  "writeHistory entry f =
     (let benchmarks = readHistory f;
          benchmarks = filter (\<lambda>b. vueVersion b \<noteq> vueVersion entry) benchmarks;
          benchmarks = benchmarks @ [entry];
          benchmarks = sort_by (\<lambda>a b. compareVersions (vueVersion a) (vueVersion b)) benchmarks
      in Some benchmarks)"

text \<open>A sequence of runs, each writing its entry.\<close>

definition writeHistory_all :: "BenchmarkEntry list \<Rightarrow> history_file \<Rightarrow> history_file" where
  "writeHistory_all entries f = foldl (\<lambda>g entry. writeHistory entry g) f entries"

text \<open>
  Ascending order of two entries under the version comparator: the comparator does not
  put the first after the second.
\<close>

definition version_le :: "BenchmarkEntry \<Rightarrow> BenchmarkEntry \<Rightarrow> bool" where
  "version_le a b \<longleftrightarrow> \<not> is_positive (compareVersions (vueVersion a) (vueVersion b))"

text \<open>Sample entries for the examples: a benchmark run of a version with a gzipped size.\<close>

definition sample_entry :: "js_string \<Rightarrow> int \<Rightarrow> BenchmarkEntry" where
  "sample_entry version vaporGzip =
     \<lparr>timestamp = str ''2025-01-01T00:00:00.000Z'', mode = Benchmark,
      vapor = \<lparr>raw = 58000, gzipped = vaporGzip\<rparr>,
      classic = \<lparr>raw = 65000, gzipped = 26000\<rparr>,
      delta = \<lparr>raw = - 7000, gzipped = vaporGzip - 26000\<rparr>,
      vueVersion = version\<rparr>"

text \<open>
  A history of twelve entries in ascending order of version: eleven benchmark runs and,
  as a hand-edited file could hold, one inspection run.
\<close>

definition sample_history :: "BenchmarkEntry list" where
  "sample_history =
     [sample_entry (str ''3.6.0-alpha.1'') 21000,
      sample_entry (str ''3.6.0-alpha.2'') 21050,
      sample_entry (str ''3.6.0-alpha.3'') 21400,
      sample_entry (str ''3.6.0-alpha.4'') 21300,
      (sample_entry (str ''3.6.0-alpha.5'') 30000)\<lparr>mode := Inspect\<rparr>,
      sample_entry (str ''3.6.0-alpha.6'') 21199,
      sample_entry (str ''3.6.0-alpha.7'') 21000,
      sample_entry (str ''3.6.0-alpha.8'') 20800,
      sample_entry (str ''3.6.0-alpha.9'') 20900,
      sample_entry (str ''3.6.0-alpha.10'') 20700,
      sample_entry (str ''3.6.0-beta.1'') 20801,
      sample_entry (str ''3.6.0'') 20700]"

section \<open>Report Generation\<close>

text \<open>
  The report is modelled by its data: the current entry and the rows of the history
  table, each with its entry and its trend. The formatting of sizes and dates into
  text is left out.
\<close>

definition TREND_THRESHOLD_BYTES :: int where
  "TREND_THRESHOLD_BYTES = 100"

definition HISTORY_DISPLAY_LIMIT :: nat where
  "HISTORY_DISPLAY_LIMIT = 10"

datatype Trend = NoTrend | Improving | Regressing | Stable

record HistoryRow =
  row_entry :: BenchmarkEntry
  row_trend :: Trend

record Report =
  report_current :: BenchmarkEntry
  report_rows :: "HistoryRow list"

text \<open>\<open>xs.slice(-n)\<close>: the last \<open>n\<close> elements, all of them when there are fewer.\<close>

definition slice_last :: "nat \<Rightarrow> 'a list \<Rightarrow> 'a list" where
  "slice_last n xs = drop (length xs - n) xs"

definition recentBenchmarks :: "BenchmarkEntry list \<Rightarrow> BenchmarkEntry list" where
  "recentBenchmarks benchmarks =
     rev (slice_last HISTORY_DISPLAY_LIMIT (filter (\<lambda>b. mode b = Benchmark) benchmarks))"

definition trend_at :: "BenchmarkEntry list \<Rightarrow> nat \<Rightarrow> Trend" where
  "trend_at recent idx =
     (if idx < length recent - 1 then
        (let prev = recent ! (idx + 1);
             change = gzipped (vapor (recent ! idx)) - gzipped (vapor prev)
         in if change < - TREND_THRESHOLD_BYTES then Improving
            else if change > TREND_THRESHOLD_BYTES then Regressing
            else Stable)
      else NoTrend)"

definition history_rows :: "BenchmarkEntry list \<Rightarrow> HistoryRow list" where
  "history_rows recent =
     map (\<lambda>idx. \<lparr>row_entry = recent ! idx, row_trend = trend_at recent idx\<rparr>)
       [0..<length recent]"

definition generateMarkdownReport :: "BenchmarkEntry \<Rightarrow> BenchmarkEntry list \<Rightarrow> Report" where
  "generateMarkdownReport current benchmarks =
     \<lparr>report_current = current,
      report_rows =
        (if mode current \<noteq> Inspect \<and> length benchmarks > 0
         then history_rows (recentBenchmarks benchmarks) else [])\<rparr>"

text \<open>
  The files \<open>writeReport\<close> touches. The time of the run and the version read from
  \<open>package.json\<close> are inputs.
\<close>

record Store =
  history_store :: history_file
  report_store :: "Report option"

definition writeReport ::
  "bool \<Rightarrow> js_string \<Rightarrow> js_string \<Rightarrow> int \<Rightarrow> int \<Rightarrow> int \<Rightarrow> int \<Rightarrow> Store \<Rightarrow> Store" where
  "writeReport isInspectMode now version vaporSize classicSize vaporGzip classicGzip st =
     (let entry =
            \<lparr>timestamp = now,
             mode = (if isInspectMode then Inspect else Benchmark),
             vapor = \<lparr>raw = vaporSize, gzipped = vaporGzip\<rparr>,
             classic = \<lparr>raw = classicSize, gzipped = classicGzip\<rparr>,
             delta = \<lparr>raw = vaporSize - classicSize, gzipped = vaporGzip - classicGzip\<rparr>,
             vueVersion = version\<rparr>;
          st = (if \<not> isInspectMode
                then st\<lparr>history_store := writeHistory entry (history_store st)\<rparr> else st);
          markdown = generateMarkdownReport entry (readHistory (history_store st))
      in st\<lparr>report_store := Some markdown\<rparr>)"

section \<open>Source Transformation\<close>

text \<open>
  \<open>String.prototype.replace\<close> with a regular expression that has no \<open>g\<close> flag: the
  leftmost match is replaced by what the function returns for the matched text, and a
  string with no match is returned as it is. The matcher gives, for a match that
  starts at the beginning of its argument, the matched text and what follows it.
\<close>

fun replace_first ::
  "(js_string \<Rightarrow> (js_string \<times> js_string) option) \<Rightarrow> (js_string \<Rightarrow> js_string) \<Rightarrow>
   js_string \<Rightarrow> js_string" where
  "replace_first m f [] = (case m [] of Some (x, r) \<Rightarrow> f x @ r | None \<Rightarrow> [])"
| "replace_first m f (c # cs) =
     (case m (c # cs) of Some (x, r) \<Rightarrow> f x @ r | None \<Rightarrow> c # replace_first m f cs)"

text \<open>
  \<^verbatim>\<open>/<script\s+setup[^>]*?>/\<close> at the start of the input. The greedy \<open>\s+\<close> takes the
  whole run of white space, since \<open>setup\<close> does not start with white space; the lazy
  \<open>[^>]*?\<close> stops at the first \<open>>\<close>, which it cannot step over.
\<close>

definition match_script_setup :: "js_string \<Rightarrow> (js_string \<times> js_string) option" where
  "match_script_setup s =
     (case strip_prefix (str ''<script'') s of
        None \<Rightarrow> None
      | Some r1 \<Rightarrow>
          (let ws = takeWhile is_space r1; r2 = dropWhile is_space r1
           in if ws = [] then None
              else (case strip_prefix (str ''setup'') r2 of
                      None \<Rightarrow> None
                    | Some r3 \<Rightarrow>
                        (let body = takeWhile (\<lambda>c. c \<noteq> 62) r3;
                             r4 = dropWhile (\<lambda>c. c \<noteq> 62) r3
                         in case r4 of
                              [] \<Rightarrow> None
                            | c # r5 \<Rightarrow>
                                Some (str ''<script'' @ ws @ str ''setup'' @ body @ [c], r5)))))"

text \<open>
  \<^verbatim>\<open>/\s+vapor(?=\s|>)/\<close> at the start of the input; the lookahead reads the next code
  unit and takes nothing.
\<close>

definition match_vapor :: "js_string \<Rightarrow> (js_string \<times> js_string) option" where
  "match_vapor s =
     (let ws = takeWhile is_space s; r1 = dropWhile is_space s
      in if ws = [] then None
         else (case strip_prefix (str ''vapor'') r1 of
                 None \<Rightarrow> None
               | Some r2 \<Rightarrow>
                   (case r2 of
                      [] \<Rightarrow> None
                    | c # _ \<Rightarrow>
                        if is_space c \<or> c = 62 then Some (ws @ str ''vapor'', r2) else None)))"

definition stripVaporAttribute :: "js_string \<Rightarrow> js_string" where
  "stripVaporAttribute source =
     replace_first match_script_setup
       (\<lambda>match. replace_first match_vapor (\<lambda>_. []) match) source"

text \<open>
  What the two expressions accept, written out. A script-setup tag is \<open><script\<close>, white
  space, \<open>setup\<close>, code units other than \<open>>\<close>, and \<open>>\<close>. A vapor token is white space
  and \<open>vapor\<close>, followed by white space or \<open>>\<close>.
\<close>

definition spaces :: "js_string \<Rightarrow> bool" where
  "spaces ws \<longleftrightarrow> ws \<noteq> [] \<and> list_all is_space ws"

definition script_setup_tag :: "js_string \<Rightarrow> bool" where
  "script_setup_tag tag \<longleftrightarrow>
     (\<exists>ws body. spaces ws \<and> 62 \<notin> set body \<and>
        tag = str ''<script'' @ ws @ str ''setup'' @ body @ str ''>'')"

definition tag_at :: "js_string \<Rightarrow> js_string \<Rightarrow> js_string \<Rightarrow> js_string \<Rightarrow> bool" where
  "tag_at source pre tag post \<longleftrightarrow> source = pre @ tag @ post \<and> script_setup_tag tag"

definition first_tag :: "js_string \<Rightarrow> js_string \<Rightarrow> js_string \<Rightarrow> js_string \<Rightarrow> bool" where
  "first_tag source pre tag post \<longleftrightarrow>
     tag_at source pre tag post \<and>
     (\<forall>pre' tag' post'. tag_at source pre' tag' post' \<longrightarrow> length pre \<le> length pre')"

definition followed_by_space_or_gt :: "js_string \<Rightarrow> bool" where
  "followed_by_space_or_gt q \<longleftrightarrow> (case q of [] \<Rightarrow> False | c # _ \<Rightarrow> is_space c \<or> c = 62)"

definition vapor_at :: "js_string \<Rightarrow> js_string \<Rightarrow> js_string \<Rightarrow> js_string \<Rightarrow> bool" where
  "vapor_at tag p x q \<longleftrightarrow>
     tag = p @ x @ q \<and> (\<exists>ws. spaces ws \<and> x = ws @ str ''vapor'') \<and> followed_by_space_or_gt q"

definition first_vapor :: "js_string \<Rightarrow> js_string \<Rightarrow> js_string \<Rightarrow> js_string \<Rightarrow> bool" where
  "first_vapor tag p x q \<longleftrightarrow>
     vapor_at tag p x q \<and> (\<forall>p' x' q'. vapor_at tag p' x' q' \<longrightarrow> length p \<le> length p')"

subsection \<open>UTF-8\<close>

text \<open>
  A file holds bytes. \<open>readFileSync(path, 'utf8')\<close> decodes them into a string, and
  \<open>writeFileSync(path, string)\<close> encodes the string into bytes.

  Decoding follows the decoder of the Encoding Standard, which Node uses: a lead byte
  announces one, two or three continuation bytes and narrows the range of the first of
  them (no overlong forms, no surrogates, nothing above U+10FFFF); a byte that cannot
  start or continue a sequence ends the sequence with U+FFFD and, when it came in place
  of a continuation byte, is read again as the start of the next one; input that ends
  inside a sequence ends with U+FFFD. A byte order mark is kept. The state of the
  decoder is the number of continuation bytes still needed, the code point so far, and
  the range allowed for the next byte.
\<close>

type_synonym bytes = "nat list"

function utf8_decode_from :: "nat \<Rightarrow> nat \<Rightarrow> nat \<Rightarrow> nat \<Rightarrow> bytes \<Rightarrow> nat list" where
  "utf8_decode_from needed cp lower upper [] = (if needed = 0 then [] else [0xFFFD])"
| "utf8_decode_from needed cp lower upper (b # bs) =
     (if needed = 0 then
        (if b \<le> 0x7F then b # utf8_decode_from 0 0 0x80 0xBF bs
         else if 0xC2 \<le> b \<and> b \<le> 0xDF then utf8_decode_from 1 (b mod 32) 0x80 0xBF bs
         else if 0xE0 \<le> b \<and> b \<le> 0xEF then
           utf8_decode_from 2 (b mod 16)
             (if b = 0xE0 then 0xA0 else 0x80) (if b = 0xED then 0x9F else 0xBF) bs
         else if 0xF0 \<le> b \<and> b \<le> 0xF4 then
           utf8_decode_from 3 (b mod 8)
             (if b = 0xF0 then 0x90 else 0x80) (if b = 0xF4 then 0x8F else 0xBF) bs
         else 0xFFFD # utf8_decode_from 0 0 0x80 0xBF bs)
      else if b < lower \<or> upper < b then 0xFFFD # utf8_decode_from 0 0 0x80 0xBF (b # bs)
      else if needed = 1 then (cp * 64 + b mod 64) # utf8_decode_from 0 0 0x80 0xBF bs
      else utf8_decode_from (needed - 1) (cp * 64 + b mod 64) 0x80 0xBF bs)"
  by pat_completeness auto
termination
  by (relation "measure (\<lambda>(needed, cp, lower, upper, bs).
        2 * length bs + (if needed = 0 then 0 else 1))") auto

text \<open>A code point as UTF-16 code units: itself, or a surrogate pair from U+10000 on.\<close>

definition utf16_units :: "nat \<Rightarrow> js_string" where
  "utf16_units cp =
     (if cp < 0x10000 then [cp]
      else [0xD800 + (cp - 0x10000) div 1024, 0xDC00 + (cp - 0x10000) mod 1024])"

definition utf8_decode :: "bytes \<Rightarrow> js_string" where
  "utf8_decode bs = concat (map utf16_units (utf8_decode_from 0 0 0x80 0xBF bs))"

text \<open>
  Encoding: a high surrogate followed by a low surrogate is one code point, a surrogate
  on its own is written as U+FFFD, and a code point takes one to four bytes.
\<close>

fun utf16_code_points :: "js_string \<Rightarrow> nat list" where
  "utf16_code_points [] = []"
| "utf16_code_points [u] = [if 0xD800 \<le> u \<and> u \<le> 0xDFFF then 0xFFFD else u]"
| "utf16_code_points (u # l # rest) =
     (if 0xD800 \<le> u \<and> u \<le> 0xDBFF \<and> 0xDC00 \<le> l \<and> l \<le> 0xDFFF then
        (0x10000 + (u - 0xD800) * 1024 + (l - 0xDC00)) # utf16_code_points rest
      else (if 0xD800 \<le> u \<and> u \<le> 0xDFFF then 0xFFFD else u) # utf16_code_points (l # rest))"

definition utf8_bytes :: "nat \<Rightarrow> bytes" where
  "utf8_bytes cp =
     (if cp < 0x80 then [cp]
      else if cp < 0x800 then [0xC0 + cp div 64, 0x80 + cp mod 64]
      else if cp < 0x10000 then
        [0xE0 + cp div 4096, 0x80 + cp div 64 mod 64, 0x80 + cp mod 64]
      else [0xF0 + cp div 262144, 0x80 + cp div 4096 mod 64, 0x80 + cp div 64 mod 64,
            0x80 + cp mod 64])"

definition utf8_encode :: "js_string \<Rightarrow> bytes" where
  "utf8_encode s = concat (map utf8_bytes (utf16_code_points s))"

text \<open>
  Well-formed UTF-8: the encoding of a sequence of Unicode scalar values, the code points
  up to U+10FFFF that are not surrogates.
\<close>

definition scalar_value :: "nat \<Rightarrow> bool" where
  "scalar_value cp \<longleftrightarrow> cp < 0xD800 \<or> (0xE000 \<le> cp \<and> cp < 0x110000)"

definition well_formed_utf8 :: "bytes \<Rightarrow> bool" where
  "well_formed_utf8 bs \<longleftrightarrow>
     (\<exists>cps. list_all scalar_value cps \<and> bs = concat (map utf8_bytes cps))"

subsection \<open>The tracked files\<close>

text \<open>
  The files under the project root: the bytes of each file, by its path relative to the
  root, and the paths that cannot be written. Reading a path that is not there raises;
  writing to a path that cannot be written raises, and otherwise replaces the bytes.
  \<open>read_file\<close> and \<open>write_file\<close> are the source's \<open>read\<close> and \<open>write\<close>.
\<close>

record file_system =
  files :: "js_string \<rightharpoonup> bytes"
  unwritable :: "js_string set"

datatype error = ReadError js_string | WriteError js_string

definition read_file :: "file_system \<Rightarrow> js_string \<Rightarrow> error + js_string" where
  "read_file fs relPath =
     (case files fs relPath of
        None \<Rightarrow> Inl (ReadError relPath)
      | Some content \<Rightarrow> Inr (utf8_decode content))"

definition write_file :: "file_system \<Rightarrow> js_string \<Rightarrow> js_string \<Rightarrow> error + file_system" where
  "write_file fs relPath content =
     (if relPath \<in> unwritable fs then Inl (WriteError relPath)
      else Inr (fs\<lparr>files := (files fs)(relPath \<mapsto> utf8_encode content)\<rparr>))"

definition trackedFiles :: "js_string list" where
  "trackedFiles =
     [str ''example/src/main.ts'',
      str ''example/src/App.vue'',
      str ''example/src/components/HelloWorld.vue'']"

text \<open>The snapshot taken at startup: each tracked file with its content, in order.\<close>

fun capture :: "file_system \<Rightarrow> js_string list \<Rightarrow> error + (js_string \<times> js_string) list" where
  "capture fs [] = Inr []"
| "capture fs (rel # rels) =
     (case read_file fs rel of
        Inl e \<Rightarrow> Inl e
      | Inr content \<Rightarrow>
          (case capture fs rels of
             Inl e \<Rightarrow> Inl e
           | Inr rest \<Rightarrow> Inr ((rel, content) # rest)))"

definition originals :: "file_system \<Rightarrow> error + (js_string \<times> js_string) list" where
  "originals fs = capture fs trackedFiles"

definition quoted :: "js_string \<Rightarrow> js_string" where
  "quoted s = [39] @ s @ [39]"

fun join_lines :: "js_string list \<Rightarrow> js_string" where
  "join_lines [] = []"
| "join_lines [l] = l"
| "join_lines (l # ls) = l @ [10] @ join_lines ls"

definition classic_main :: js_string where
  "classic_main =
     join_lines
       [str ''import '' @ quoted (str ''./style.css''),
        str ''import { createApp } from '' @ quoted (str ''vue''),
        str ''import App from '' @ quoted (str ''./App.vue''),
        [],
        str ''// Classic Vue runtime build used for comparisons.'',
        str ''createApp(App).mount('' @ quoted (str ''#app'') @ str '')'',
        []]"

fun strip_files :: "file_system \<Rightarrow> js_string list \<Rightarrow> error + file_system" where
  "strip_files fs [] = Inr fs"
| "strip_files fs (file # rest) =
     (case read_file fs file of
        Inl e \<Rightarrow> Inl e
      | Inr content \<Rightarrow>
          (case write_file fs file (stripVaporAttribute content) of
             Inl e \<Rightarrow> Inl e
           | Inr fs' \<Rightarrow> strip_files fs' rest))"

definition applyClassicTransforms :: "file_system \<Rightarrow> error + file_system" where
  "applyClassicTransforms fs =
     (case write_file fs (str ''example/src/main.ts'') classic_main of
        Inl e \<Rightarrow> Inl e
      | Inr fs' \<Rightarrow>
          strip_files fs'
            [str ''example/src/App.vue'', str ''example/src/components/HelloWorld.vue''])"

fun restoreSources :: "(js_string \<times> js_string) list \<Rightarrow> file_system \<Rightarrow> error + file_system" where
  "restoreSources [] fs = Inr fs"
| "restoreSources ((file, content) # rest) fs =
     (case write_file fs file content of
        Inl e \<Rightarrow> Inl e
      | Inr fs' \<Rightarrow> restoreSources rest fs')"

text \<open>
  The part of a run that touches the tracked files: the snapshot at startup, the classic
  transform, and the restore that follows a transform that has completed.
  \<open>restored_bytes\<close> reads the bytes of a file after such a run.
\<close>

definition transform_and_restore :: "file_system \<Rightarrow> error + file_system" where
  "transform_and_restore fs =
     (case originals fs of
        Inl e \<Rightarrow> Inl e
      | Inr snapshot \<Rightarrow>
          (case applyClassicTransforms fs of
             Inl e \<Rightarrow> Inl e
           | Inr fs' \<Rightarrow> restoreSources snapshot fs'))"

definition restored_bytes :: "file_system \<Rightarrow> js_string \<Rightarrow> bytes option" where
  "restored_bytes fs relPath =
     (case transform_and_restore fs of Inl e \<Rightarrow> None | Inr fs' \<Rightarrow> files fs' relPath)"

text \<open>What a tracked file holds after its text was decoded and encoded again.\<close>

definition reencoded :: "file_system \<Rightarrow> js_string \<Rightarrow> bytes option" where
  "reencoded fs relPath =
     (if relPath \<in> set trackedFiles
      then map_option (\<lambda>content. utf8_encode (utf8_decode content)) (files fs relPath)
      else files fs relPath)"

text \<open>
  Sample content of the tracked files, all of them writable: a Vapor entry point, a
  component marked with the attribute, and a component with no script block, which the
  transform leaves alone. In \<open>invalid_files\<close> the entry point holds a byte that is
  not UTF-8.
\<close>

definition ascii_bytes :: "string \<Rightarrow> bytes" where
  "ascii_bytes s = map of_char s"

definition sample_files :: file_system where
  "sample_files =
     \<lparr>files =
        [str ''example/src/main.ts'' \<mapsto> ascii_bytes ''createVaporApp(RootComponent).mount()'',
         str ''example/src/App.vue'' \<mapsto> ascii_bytes ''<script setup vapor>'',
         str ''example/src/components/HelloWorld.vue'' \<mapsto> ascii_bytes ''<template/>''],
      unwritable = {}\<rparr>"

definition invalid_files :: file_system where
  "invalid_files =
     \<lparr>files =
        [str ''example/src/main.ts'' \<mapsto> ascii_bytes ''// caf'' @ [0xE9],
         str ''example/src/App.vue'' \<mapsto> ascii_bytes ''<script setup vapor>'',
         str ''example/src/components/HelloWorld.vue'' \<mapsto> ascii_bytes ''<template/>''],
      unwritable = {}\<rparr>"

section \<open>The version pattern and its matcher\<close>

lemma str_dot: "str ''.'' = [46]"
  by (simp add: str_def)
lemma str_dash: "str ''-'' = [45]"
  by (simp add: str_def)
lemma str_alpha: "str ''alpha'' = [97, 108, 112, 104, 97]"
  by (simp add: str_def)
lemma str_beta: "str ''beta'' = [98, 101, 116, 97]"
  by (simp add: str_def)
lemma str_rc: "str ''rc'' = [114, 99]"
  by (simp add: str_def)

lemma strip_prefix_iff: "strip_prefix p s = Some r \<longleftrightarrow> s = p @ r"
proof
  assume "strip_prefix p s = Some r"
  then have "take (length p) s = p" "r = drop (length p) s"
    by (auto simp: strip_prefix_def split: if_splits)
  then show "s = p @ r" by (metis append_take_drop_id)
next
  assume "s = p @ r"
  then show "strip_prefix p s = Some r" by (simp add: strip_prefix_def)
qed

lemma strip_prefix_None: "strip_prefix p s = None \<longleftrightarrow> (\<forall>r. s \<noteq> p @ r)"
  using strip_prefix_iff[of p s] by (metis not_Some_eq)

lemma match_number_iff:
  "match_number s = Some (ds, r) \<longleftrightarrow> s = ds @ r \<and> digits ds \<and> \<not> starts_with_digit r"
proof
  assume "match_number s = Some (ds, r)"
  then have ds: "ds = takeWhile is_digit s" and r: "r = dropWhile is_digit s" and ne: "ds \<noteq> []"
    by (auto simp: match_number_def Let_def split: if_splits)
  have "list_all is_digit ds" unfolding ds list_all_iff by (auto dest: set_takeWhileD)
  moreover have "\<not> starts_with_digit r"
    unfolding r starts_with_digit_def
    by (auto split: list.splits dest: dropWhile_eq_Cons_conv[THEN iffD1])
  ultimately show "s = ds @ r \<and> digits ds \<and> \<not> starts_with_digit r"
    using ds r ne by (simp add: digits_def)
next
  assume a: "s = ds @ r \<and> digits ds \<and> \<not> starts_with_digit r"
  then have all: "\<forall>c\<in>set ds. is_digit c" and ne: "ds \<noteq> []"
    by (auto simp: digits_def list_all_iff)
  have r: "takeWhile is_digit r = []" "dropWhile is_digit r = r"
    using a by (auto simp: starts_with_digit_def split: list.splits)
  have "takeWhile is_digit s = ds" "dropWhile is_digit s = r"
    using a all r by simp_all
  then show "match_number s = Some (ds, r)"
    using ne by (simp add: match_number_def)
qed

lemma match_tag_iff: "match_tag s = Some (t, r) \<longleftrightarrow> is_tag t \<and> s = t @ r"
  unfolding match_tag_def is_tag_def
  by (auto simp: strip_prefix_iff strip_prefix_None str_alpha str_beta str_rc split: option.splits)


lemma match_number_all: "digits n \<Longrightarrow> match_number n = Some (n, [])"
  using match_number_iff[of n n "[]"] by (simp add: starts_with_digit_def)

lemma match_prerelease_iff:
  "match_prerelease s = Some (t, n) \<longleftrightarrow>
     is_tag t \<and> digits n \<and> s = str ''-'' @ t @ str ''.'' @ n"
proof
  assume "match_prerelease s = Some (t, n)"
  then obtain r1 r2 r3 r4 where
    "strip_prefix (str ''-'') s = Some r1" "match_tag r1 = Some (t, r2)"
    "strip_prefix (str ''.'') r2 = Some r3" "match_number r3 = Some (n, r4)" "r4 = []"
    by (auto simp: match_prerelease_def split: option.splits if_splits)
  then show "is_tag t \<and> digits n \<and> s = str ''-'' @ t @ str ''.'' @ n"
    by (simp add: strip_prefix_iff match_tag_iff match_number_iff)
next
  assume a: "is_tag t \<and> digits n \<and> s = str ''-'' @ t @ str ''.'' @ n"
  have 1: "strip_prefix (str ''-'') (str ''-'' @ x) = Some x" for x
    by (simp add: strip_prefix_iff)
  have 2: "match_tag (t @ str ''.'' @ n) = Some (t, str ''.'' @ n)"
    using a by (simp add: match_tag_iff)
  have 3: "strip_prefix (str ''.'') (str ''.'' @ n) = Some n"
    by (simp add: strip_prefix_iff)
  show "match_prerelease s = Some (t, n)"
    using a by (simp add: match_prerelease_def 1 2 3 match_number_all)
qed

lemma match_version_iff:
  "match_version s = Some (g1, g2, g3, pre) \<longleftrightarrow>
     well_formed g1 g2 g3 pre \<and> s = version_string g1 g2 g3 pre"
proof
  assume m: "match_version s = Some (g1, g2, g3, pre)"
  then show "well_formed g1 g2 g3 pre \<and> s = version_string g1 g2 g3 pre"
    by (auto simp: match_version_def strip_prefix_iff match_number_iff match_prerelease_iff
        well_formed_def version_string_def split: option.splits if_splits)
next
  assume a: "well_formed g1 g2 g3 pre \<and> s = version_string g1 g2 g3 pre"
  define tail where "tail = (case pre of None \<Rightarrow> [] | Some (t, n) \<Rightarrow> str ''-'' @ t @ str ''.'' @ n)"
  have nd: "\<not> starts_with_digit tail" "\<not> starts_with_digit (str ''.'' @ x)" for x
    by (auto simp: tail_def starts_with_digit_def str_dot str_dash is_digit_def split: option.splits)
  have s: "s = g1 @ str ''.'' @ g2 @ str ''.'' @ g3 @ tail"
    using a by (simp add: version_string_def tail_def)
  have d: "digits g1" "digits g2" "digits g3"
    using a by (simp_all add: well_formed_def)
  have 1: "match_number s = Some (g1, str ''.'' @ g2 @ str ''.'' @ g3 @ tail)"
    using d nd s by (simp add: match_number_iff)
  have 2: "match_number (g2 @ str ''.'' @ g3 @ tail) = Some (g2, str ''.'' @ g3 @ tail)"
    using d nd by (simp add: match_number_iff)
  have 3: "match_number (g3 @ tail) = Some (g3, tail)"
    using d nd by (simp add: match_number_iff)
  have 4: "strip_prefix (str ''.'') (str ''.'' @ x) = Some x" for x
    by (simp add: strip_prefix_iff)
  have 5: "match_version s =
      (if tail = [] then Some (g1, g2, g3, None)
       else (case match_prerelease tail of None \<Rightarrow> None
             | Some q \<Rightarrow> Some (g1, g2, g3, Some q)))"
    by (simp add: match_version_def 1 2 3 4)
  show "match_version s = Some (g1, g2, g3, pre)"
  proof (cases pre)
    case None
    then have "tail = []" by (simp add: tail_def)
    then show ?thesis using None by (simp add: 5)
  next
    case (Some q)
    obtain t n where q: "q = (t, n)" by (cases q)
    have "match_prerelease tail = Some (t, n)"
      using a Some q by (simp add: match_prerelease_iff tail_def well_formed_def)
    moreover have "tail \<noteq> []" using Some q by (simp add: tail_def str_dash)
    ultimately show ?thesis using Some q by (simp add: 5)
  qed
qed

lemma match_version_None: "match_version s = None \<longleftrightarrow> \<not> matches_version_pattern s"
proof -
  have "matches_version_pattern s \<longleftrightarrow> (\<exists>g. match_version s = Some g)"
    unfolding matches_version_pattern_def using match_version_iff[of s] by auto
  then show ?thesis by auto
qed

section \<open>Rounding to a double\<close>

lemma bit_length_nonpos: "n \<le> 0 \<Longrightarrow> bit_length n = 0"
  by (simp add: bit_length.simps[of n])

lemma bit_length_pos: "0 < n \<Longrightarrow> bit_length n = Suc (bit_length (n div 2))"
  by (simp add: bit_length.simps[of n])

lemma bit_length_bounds:
  "0 < n \<Longrightarrow> 2 ^ (bit_length n - 1) \<le> n \<and> n < 2 ^ bit_length n"
proof (induction n rule: bit_length.induct)
  case (1 n)
  show ?case
  proof (cases "n = 1")
    case True
    have "bit_length 1 = 1"
      by (simp add: bit_length_pos bit_length_nonpos)
    with True show ?thesis by simp
  next
    case False
    with 1 have h: "0 < n div 2" and pos: "\<not> n \<le> 0"
      by auto
    from 1(1)[OF pos h] have ih: "2 ^ (bit_length (n div 2) - 1) \<le> n div 2"
      "n div 2 < 2 ^ bit_length (n div 2)"
      by auto
    have bl: "bit_length n = Suc (bit_length (n div 2))"
      using pos by (simp add: bit_length.simps[of n])
    have "0 < bit_length (n div 2)"
      using h by (simp add: bit_length.simps[of "n div 2"])
    then obtain k where k: "bit_length (n div 2) = Suc k"
      by (cases "bit_length (n div 2)") auto
    have "2 * 2 ^ k \<le> n"
      using ih(1) k by simp
    moreover have "n < 2 * 2 ^ Suc k"
      using ih(2) k by simp
    ultimately show ?thesis
      by (simp add: bl k)
  qed
qed

lemma round_magnitude_lower:
  assumes "53 \<le> bit_length n"
  shows "2 ^ (bit_length n - 1) \<le> round_magnitude n"
proof -
  define e where "e = bit_length n - 53"
  define q where "q = n div 2 ^ e"
  have pos: "0 < n"
    using assms by (cases "n \<le> 0") (simp_all add: bit_length.simps[of n])
  have bl: "bit_length n - 1 = 52 + e"
    using assms by (simp add: e_def)
  have "(2::int) ^ (52 + e) \<le> n"
    using bit_length_bounds[OF pos] by (simp only: bl)
  then have "(2::int) ^ 52 * 2 ^ e \<le> n"
    by (simp only: power_add)
  then have "(2 ^ 52 * 2 ^ e) div 2 ^ e \<le> n div (2::int) ^ e"
    by (intro zdiv_mono1) simp_all
  then have q: "(2::int) ^ 52 \<le> q"
    by (simp add: q_def)
  have "q * 2 ^ e \<le> round_magnitude n"
    unfolding round_magnitude_def Let_def e_def[symmetric] q_def[symmetric]
    by (simp add: mult_right_mono)
  moreover have "(2::int) ^ 52 * 2 ^ e \<le> q * 2 ^ e"
    using q by (simp add: mult_right_mono)
  ultimately have "(2::int) ^ 52 * 2 ^ e \<le> round_magnitude n"
    by linarith
  then show ?thesis
    by (simp only: bl power_add)
qed

lemma bit_length_large: "2 ^ k \<le> n \<Longrightarrow> k < bit_length n"
proof -
  assume a: "2 ^ k \<le> n"
  then have "0 < n"
    by (smt (verit) zero_less_power)
  then have "n < 2 ^ bit_length n"
    using bit_length_bounds by blast
  with a have "(2::int) ^ k < 2 ^ bit_length n"
    by linarith
  then show ?thesis by simp
qed

lemma round_magnitude_pos: "2 ^ 53 < n \<Longrightarrow> 0 < round_magnitude n"
proof -
  assume "2 ^ 53 < n"
  then have "53 < bit_length n"
    using bit_length_large[of 53 n] by simp
  then have "2 ^ (bit_length n - 1) \<le> round_magnitude n"
    by (intro round_magnitude_lower) simp
  moreover have "(0::int) < 2 ^ (bit_length n - 1)"
    by simp
  ultimately show ?thesis by linarith
qed


lemma round_double_exact: "\<bar>n\<bar> \<le> 2 ^ 53 \<Longrightarrow> round_double n = Num n"
  by (simp add: round_double_def)


lemma round_double_sign:
  "is_negative (round_double n) \<longleftrightarrow> n < 0"
  "is_positive (round_double n) \<longleftrightarrow> 0 < n"
  "round_double n \<noteq> NaN"
  "round_double n = Num 0 \<longleftrightarrow> n = 0"
proof -
  have m: "0 < round_magnitude \<bar>n\<bar>" if "\<not> \<bar>n\<bar> \<le> 2 ^ 53"
    using that by (intro round_magnitude_pos) simp
  show "is_negative (round_double n) \<longleftrightarrow> n < 0"
    using m by (auto simp: round_double_def Let_def)
  show "is_positive (round_double n) \<longleftrightarrow> 0 < n"
    using m by (auto simp: round_double_def Let_def)
  show "round_double n \<noteq> NaN"
    by (simp add: round_double_def Let_def)
  show "round_double n = Num 0 \<longleftrightarrow> n = 0"
    using m by (auto simp: round_double_def Let_def)
qed

lemma round_double_component: "0 \<le> n \<Longrightarrow> is_component (round_double n)"
proof -
  assume a: "0 \<le> n"
  have m: "0 < round_magnitude \<bar>n\<bar>" if "\<not> \<bar>n\<bar> \<le> 2 ^ 53"
    using that by (intro round_magnitude_pos) simp
  have "(2::int) ^ 53 < 2 ^ 1024"
    by simp
  then show ?thesis
    using a m unfolding round_double_def Let_def is_component_def
    by (auto simp: not_le)
qed

lemma is_component_cases:
  assumes "is_component x"
  obtains "x = PosInf" | k where "x = Num k" "0 \<le> k" "k < 2 ^ 1024"
  using assms unfolding is_component_def by blast

lemma js_minus_component:
  assumes "is_component x" and "is_component y"
  shows "is_negative (js_minus x y) \<longleftrightarrow> number_key x < number_key y"
    and "is_positive (js_minus x y) \<longleftrightarrow> number_key y < number_key x"
    and "js_minus x y = NaN \<longleftrightarrow> x = PosInf \<and> y = PosInf"
    and "js_minus x y = Num 0 \<longleftrightarrow> x = y \<and> x \<noteq> PosInf"
    and "strict_neq x y \<longleftrightarrow> number_key x \<noteq> number_key y"
    and "x = y \<longleftrightarrow> number_key x = number_key y"
proof -
  from assms(1) show "is_negative (js_minus x y) \<longleftrightarrow> number_key x < number_key y"
    by (cases rule: is_component_cases; use assms(2) in \<open>cases rule: is_component_cases\<close>)
      (auto simp: round_double_sign)
  from assms(1) show "is_positive (js_minus x y) \<longleftrightarrow> number_key y < number_key x"
    by (cases rule: is_component_cases; use assms(2) in \<open>cases rule: is_component_cases\<close>)
      (auto simp: round_double_sign)
  from assms(1) show "js_minus x y = NaN \<longleftrightarrow> x = PosInf \<and> y = PosInf"
    by (cases rule: is_component_cases; use assms(2) in \<open>cases rule: is_component_cases\<close>)
      (auto simp: round_double_sign)
  from assms(1) show "js_minus x y = Num 0 \<longleftrightarrow> x = y \<and> x \<noteq> PosInf"
    by (cases rule: is_component_cases; use assms(2) in \<open>cases rule: is_component_cases\<close>)
      (auto simp: round_double_sign)
  from assms(1) show "strict_neq x y \<longleftrightarrow> number_key x \<noteq> number_key y"
    by (cases rule: is_component_cases; use assms(2) in \<open>cases rule: is_component_cases\<close>)
      (auto simp: strict_neq_def)
  from assms(1) show "x = y \<longleftrightarrow> number_key x = number_key y"
    by (cases rule: is_component_cases; use assms(2) in \<open>cases rule: is_component_cases\<close>)
      auto
qed

lemma number_trichotomy: "r \<noteq> NaN \<Longrightarrow> is_negative r \<or> r = Num 0 \<or> is_positive r"
  by (cases r) auto

lemma number_signs_exclusive:
  "\<not> (is_negative r \<and> is_positive r)" "\<not> is_negative (Num 0)" "\<not> is_positive (Num 0)"
  by (cases r) auto

section \<open>What \<open>parseInt\<close> and \<open>parseVersion\<close> return\<close>

text \<open>\<open>decimal_value\<close> reads a run of digits as the decimal number it writes.\<close>

lemma decimal_value_snoc: "decimal_value (ds @ [c]) = 10 * decimal_value ds + (int c - 48)"
  by (simp add: decimal_value_def)

lemma decimal_value_decimal: "decimal_value (decimal n) = int n"
proof (induction n rule: decimal.induct)
  case (1 n)
  show ?case
  proof (cases "n < 10")
    case True
    then show ?thesis
      by (simp add: decimal.simps[of n] decimal_value_def)
  next
    case False
    with 1 have "decimal_value (decimal (n div 10)) = int (n div 10)"
      by simp
    with False show ?thesis
      by (simp add: decimal.simps[of n] decimal_value_snoc zdiv_int zmod_int)
  qed
qed

lemma digits_decimal: "digits (decimal n)"
proof (induction n rule: decimal.induct)
  case (1 n)
  show ?case
  proof (cases "n < 10")
    case True
    then show ?thesis
      by (simp add: decimal.simps[of n] digits_def is_digit_def)
  next
    case False
    with 1 have "digits (decimal (n div 10))"
      by simp
    moreover have "is_digit (48 + n mod 10)"
      by (simp add: is_digit_def)
    ultimately show ?thesis
      using False by (simp add: decimal.simps[of n] digits_def)
  qed
qed


lemma decimal_value_nonneg: "list_all is_digit ds \<Longrightarrow> 0 \<le> decimal_value ds"
proof -
  have "0 \<le> n \<Longrightarrow> list_all is_digit ds \<Longrightarrow> 0 \<le> foldl (\<lambda>n c. 10 * n + (int c - 48)) n ds" for n
    by (induction ds arbitrary: n) (auto simp: is_digit_def)
  then show "list_all is_digit ds \<Longrightarrow> 0 \<le> decimal_value ds"
    by (simp add: decimal_value_def)
qed

lemma parseInt_component: "digits ds \<Longrightarrow> is_component (parseInt ds)"
  by (simp add: parseInt_def digits_def round_double_component decimal_value_nonneg)

lemma parseInt_exact:
  "digits g \<Longrightarrow> decimal_value g \<le> 9007199254740992 \<Longrightarrow> parseInt g = Num (decimal_value g)"
proof -
  assume "digits g" "decimal_value g \<le> 9007199254740992"
  then have "\<bar>decimal_value g\<bar> \<le> 2 ^ 53"
    using decimal_value_nonneg[of g] by (simp add: digits_def)
  then show ?thesis
    by (simp only: parseInt_def round_double_exact)
qed

lemma prereleaseOrder_component: "is_component (prereleaseOrder t)"
  by (simp add: prereleaseOrder_def is_component_def)

lemma prereleaseOrder_key: "number_key (prereleaseOrder t) < 4"
  by (simp add: prereleaseOrder_def)

lemma prereleaseOrder_tags:
  "prereleaseOrder (str ''alpha'') = Num 1" "prereleaseOrder (str ''beta'') = Num 2"
  "prereleaseOrder (str ''rc'') = Num 3"
  by (simp_all add: prereleaseOrder_def str_alpha str_beta str_rc)



lemma parseVersion_invariant:
  "is_component (major (parseVersion s))"
  "is_component (minor (parseVersion s))"
  "is_component (patch (parseVersion s))"
  "is_component (prereleaseNum (parseVersion s))"
  "prerelease (parseVersion s) = None \<Longrightarrow> prereleaseNum (parseVersion s) = Num 0"
  "prerelease (parseVersion s) = Some t \<Longrightarrow> is_tag t"
proof -
  have zero: "is_component (Num 0)"
    by (simp add: is_component_def)
  consider "match_version s = None"
    | g1 g2 g3 pre where "match_version s = Some (g1, g2, g3, pre)" "well_formed g1 g2 g3 pre"
    by (cases "match_version s") (auto simp: match_version_iff)
  then have "is_component (major (parseVersion s)) \<and>
    is_component (minor (parseVersion s)) \<and>
    is_component (patch (parseVersion s)) \<and>
    is_component (prereleaseNum (parseVersion s)) \<and>
    (prerelease (parseVersion s) = None \<longrightarrow> prereleaseNum (parseVersion s) = Num 0) \<and>
    (\<forall>t. prerelease (parseVersion s) = Some t \<longrightarrow> is_tag t)"
  proof cases
    case 1
    then show ?thesis by (simp add: parseVersion_def zero)
  next
    case 2
    then show ?thesis
      by (auto simp: parseVersion_def well_formed_def parseInt_component zero
          split: option.splits)
  qed
  then show "is_component (major (parseVersion s))"
    "is_component (minor (parseVersion s))"
    "is_component (patch (parseVersion s))"
    "is_component (prereleaseNum (parseVersion s))"
    "prerelease (parseVersion s) = None \<Longrightarrow> prereleaseNum (parseVersion s) = Num 0"
    "prerelease (parseVersion s) = Some t \<Longrightarrow> is_tag t"
    by blast+
qed

lemma parseVersion_well_formed:
  "well_formed g1 g2 g3 pre \<Longrightarrow>
   parseVersion (version_string g1 g2 g3 pre) =
     \<lparr>major = parseInt g1, minor = parseInt g2, patch = parseInt g3,
      prerelease = map_option fst pre,
      prereleaseNum = (case pre of None \<Rightarrow> Num 0 | Some (t, n) \<Rightarrow> parseInt n)\<rparr>"
proof -
  assume "well_formed g1 g2 g3 pre"
  then have "match_version (version_string g1 g2 g3 pre) = Some (g1, g2, g3, pre)"
    by (simp add: match_version_iff)
  then show ?thesis by (simp add: parseVersion_def)
qed

lemma parseVersion_no_match:
  "\<not> matches_version_pattern s \<Longrightarrow>
   parseVersion s =
     \<lparr>major = Num 0, minor = Num 0, patch = Num 0, prerelease = None, prereleaseNum = Num 0\<rparr>"
proof -
  assume "\<not> matches_version_pattern s"
  then have "match_version s = None"
    by (simp add: match_version_None)
  then show ?thesis by (simp add: parseVersion_def)
qed

section \<open>The version comparator is a total preorder\<close>

text \<open>
  The comparator returns a negative number exactly when the key of the first string is
  below the key of the second, and a positive number exactly when it is above.
\<close>

lemma compareVersions_key:
  "is_negative (compareVersions a b) \<longleftrightarrow> version_key a < version_key b"
  "is_positive (compareVersions a b) \<longleftrightarrow> version_key b < version_key a"
proof -
  note inv = parseVersion_invariant
  note sub = js_minus_component
  define vA where "vA = parseVersion a"
  define vB where "vB = parseVersion b"
  have c: "is_component (major vA)" "is_component (minor vA)" "is_component (patch vA)"
    "is_component (prereleaseNum vA)" "is_component (major vB)" "is_component (minor vB)"
    "is_component (patch vB)" "is_component (prereleaseNum vB)"
    unfolding vA_def vB_def by (rule inv)+
  have n: "prerelease vA = None \<Longrightarrow> prereleaseNum vA = Num 0"
    "prerelease vB = None \<Longrightarrow> prereleaseNum vB = Num 0"
    unfolding vA_def vB_def by (rule inv; assumption)+
  note po = prereleaseOrder_component prereleaseOrder_key
  have "(is_negative (compareVersions a b) \<longleftrightarrow> version_key a < version_key b) \<and>
        (is_positive (compareVersions a b) \<longleftrightarrow> version_key b < version_key a)"
    unfolding compareVersions_def version_key_def Let_def vA_def[symmetric] vB_def[symmetric]
    using n po[of "the (prerelease vA)"] po[of "the (prerelease vB)"]
    by (cases "prerelease vA"; cases "prerelease vB")
      (auto simp: sub(1,2,5)[OF c(1) c(5)] sub(1,2,5)[OF c(2) c(6)] sub(1,2,5)[OF c(3) c(7)]
        sub(1,2,5)[OF c(4) c(8)] sub(1,2,5)[OF prereleaseOrder_component prereleaseOrder_component])
  then show "is_negative (compareVersions a b) \<longleftrightarrow> version_key a < version_key b"
    "is_positive (compareVersions a b) \<longleftrightarrow> version_key b < version_key a"
    by blast+
qed

lemma version_le_key: "version_le x y \<longleftrightarrow> version_key (vueVersion x) \<le> version_key (vueVersion y)"
  by (simp add: version_le_def compareVersions_key not_less)

lemma compareVersions_not_NaN:
  assumes "prereleaseNum (parseVersion a) \<noteq> PosInf \<or> prereleaseNum (parseVersion b) \<noteq> PosInf"
  shows "compareVersions a b \<noteq> NaN"
proof -
  note inv = parseVersion_invariant
  note sub = js_minus_component
  define vA where "vA = parseVersion a"
  define vB where "vB = parseVersion b"
  have c: "is_component (major vA)" "is_component (minor vA)" "is_component (patch vA)"
    "is_component (prereleaseNum vA)" "is_component (major vB)" "is_component (minor vB)"
    "is_component (patch vB)" "is_component (prereleaseNum vB)"
    unfolding vA_def vB_def by (rule inv)+
  have f: "prereleaseNum vA \<noteq> PosInf \<or> prereleaseNum vB \<noteq> PosInf"
    using assms by (simp add: vA_def vB_def)
  have neq: "strict_neq x y \<Longrightarrow> is_component x \<Longrightarrow> is_component y \<Longrightarrow> js_minus x y \<noteq> NaN"
    for x y
    by (auto simp: sub(3) strict_neq_def)
  show ?thesis
    unfolding compareVersions_def Let_def vA_def[symmetric] vB_def[symmetric]
    using f
    by (cases "prerelease vA"; cases "prerelease vB")
      (auto simp: neq c prereleaseOrder_component sub(3)[OF c(4) c(8)])
qed

lemma compareVersions_zero:
  assumes "prereleaseNum (parseVersion a) \<noteq> PosInf \<or> prereleaseNum (parseVersion b) \<noteq> PosInf"
  shows "compareVersions a b = Num 0 \<longleftrightarrow> version_key a = version_key b"
proof
  assume "compareVersions a b = Num 0"
  then have "\<not> is_negative (compareVersions a b)" "\<not> is_positive (compareVersions a b)"
    by simp_all
  then show "version_key a = version_key b"
    unfolding compareVersions_key by simp
next
  assume "version_key a = version_key b"
  then have "\<not> is_negative (compareVersions a b)" "\<not> is_positive (compareVersions a b)"
    unfolding compareVersions_key by simp_all
  with number_trichotomy[OF compareVersions_not_NaN[OF assms]]
  show "compareVersions a b = Num 0"
    by blast
qed


lemma version_key_exact:
  assumes "well_formed g1 g2 g3 pre" and "exact_runs g1 g2 g3 pre"
  shows "version_key (version_string g1 g2 g3 pre) =
    (decimal_value g1, decimal_value g2, decimal_value g3,
     (case pre of None \<Rightarrow> 4 | Some (t, n) \<Rightarrow> number_key (prereleaseOrder t)),
     (case pre of None \<Rightarrow> 0 | Some (t, n) \<Rightarrow> decimal_value n))"
  and "finite_prerelease (version_string g1 g2 g3 pre)"
  using assms
  unfolding version_key_def finite_prerelease_def Let_def parseVersion_well_formed[OF assms(1)]
  by (auto simp: well_formed_def exact_runs_def parseInt_exact split: option.splits)


lemma compareVersions_not_positive_trans:
  "\<not> is_positive (compareVersions a b) \<Longrightarrow> \<not> is_positive (compareVersions b c) \<Longrightarrow>
   \<not> is_positive (compareVersions a c)"
  unfolding compareVersions_key not_less by (rule order_trans)

lemma compareVersions_not_positive_total:
  "\<not> is_positive (compareVersions a b) \<or> \<not> is_positive (compareVersions b a)"
  unfolding compareVersions_key not_less by (rule linear)



section \<open>Claims about the version comparator\<close>

text \<open>
  C2 (the result of \<open>compare\<close> lies in \<open>{-1, 0, 1}\<close>). The comparator returns the
  difference of the first components that differ, not its sign: for \<open>5.0.0\<close> against
  \<open>3.0.0\<close> the result is \<open>2\<close>, outside the set the comment above \<open>compareVersions\<close>
  promises.
\<close>

theorem compareVersions_returns_difference:
  "compareVersions (str ''5.0.0'') (str ''3.0.0'') = Num 2"
  by code_simp




text \<open>
  C6: a version string that does not match the pattern parses to the sentinel with all
  numbers zero and no prerelease tag, and two such strings compare as equal.
\<close>

theorem parseVersion_sentinel:
  "(\<not> matches_version_pattern s \<longrightarrow>
      parseVersion s =
        \<lparr>major = Num 0, minor = Num 0, patch = Num 0, prerelease = None,
         prereleaseNum = Num 0\<rparr>) \<and>
   (\<not> matches_version_pattern a \<and> \<not> matches_version_pattern b \<longrightarrow>
      compareVersions a b = Num 0)"
  by (simp add: parseVersion_no_match compareVersions_def strict_neq_def)

text \<open>The label \<open>unknown\<close> of a failed version lookup, and a version with no patch number.\<close>

theorem parseVersion_sentinel_witness:
  "\<not> matches_version_pattern (str ''unknown'') \<and>
   \<not> matches_version_pattern (str ''3.6'') \<and>
   parseVersion (str ''unknown'') =
     \<lparr>major = Num 0, minor = Num 0, patch = Num 0, prerelease = None,
      prereleaseNum = Num 0\<rparr> \<and>
   compareVersions (str ''unknown'') (str ''3.6'') = Num 0"
proof -
  have "match_version (str ''unknown'') = None"
    by code_simp
  then have 1: "\<not> matches_version_pattern (str ''unknown'')"
    by (simp add: match_version_None)
  have "match_version (str ''3.6'') = None"
    by code_simp
  then have 2: "\<not> matches_version_pattern (str ''3.6'')"
    by (simp add: match_version_None)
  from 1 2 parseVersion_sentinel[of "str ''unknown''" "str ''unknown''" "str ''3.6''"]
  show ?thesis by blast
qed

text \<open>
  C3, as stated, fails: the major numbers 9007199254740993 and 9007199254740992 are
  the same double, so the two versions compare as equal although the first is greater.
\<close>

theorem compareVersions_ordering_counterexample:
  "matches_version_pattern (str ''9007199254740993.0.0'') \<and>
   matches_version_pattern (str ''9007199254740992.0.0'') \<and>
   decimal_value (str ''9007199254740992'') < decimal_value (str ''9007199254740993'') \<and>
   compareVersions (str ''9007199254740993.0.0'') (str ''9007199254740992.0.0'') = Num 0"
proof -
  have "match_version (str ''9007199254740993.0.0'') \<noteq> None"
    by code_simp
  then have 1: "matches_version_pattern (str ''9007199254740993.0.0'')"
    by (simp add: match_version_None)
  have "match_version (str ''9007199254740992.0.0'') \<noteq> None"
    by code_simp
  then have 2: "matches_version_pattern (str ''9007199254740992.0.0'')"
    by (simp add: match_version_None)
  have 3: "decimal_value (str ''9007199254740992'') < decimal_value (str ''9007199254740993'')"
    by code_simp
  have 4: "compareVersions (str ''9007199254740993.0.0'') (str ''9007199254740992.0.0'') = Num 0"
    by code_simp
  from 1 2 3 4 show ?thesis by blast
qed

text \<open>
  C3, amended: for two strings of the pattern whose major, minor, patch and prerelease
  numbers are at most \<open>2 ^ 53 = 9007199254740992\<close>, the comparator decides by the major
  numbers, then the minor numbers, then the patch numbers, each read as a decimal
  number; at equal numbers a version with no prerelease tag is greater than one with a
  tag; two tagged versions are decided by the rank of the tag, where alpha is 1, beta
  is 2 and rc is 3, and then by the prerelease numbers, read as decimal numbers.
\<close>

theorem compareVersions_ordering:
  assumes "well_formed a1 a2 a3 preA" and "well_formed b1 b2 b3 preB"
    and "exact_runs a1 a2 a3 preA" and "exact_runs b1 b2 b3 preB"
  shows "let c = compareVersions (version_string a1 a2 a3 preA) (version_string b1 b2 b3 preB);
             m = decimal_value
    in (m a1 < m b1 \<longrightarrow> is_negative c) \<and> (m a1 > m b1 \<longrightarrow> is_positive c) \<and>
       (m a1 = m b1 \<longrightarrow>
         (m a2 < m b2 \<longrightarrow> is_negative c) \<and> (m a2 > m b2 \<longrightarrow> is_positive c) \<and>
         (m a2 = m b2 \<longrightarrow>
           (m a3 < m b3 \<longrightarrow> is_negative c) \<and> (m a3 > m b3 \<longrightarrow> is_positive c) \<and>
           (m a3 = m b3 \<longrightarrow>
             (preA = None \<and> preB = None \<longrightarrow> c = Num 0) \<and>
             (preA = None \<and> preB \<noteq> None \<longrightarrow> is_positive c) \<and>
             (preA \<noteq> None \<and> preB = None \<longrightarrow> is_negative c) \<and>
             (\<forall>tA nA tB nB. preA = Some (tA, nA) \<and> preB = Some (tB, nB) \<longrightarrow>
               (number_key (prereleaseOrder tA) < number_key (prereleaseOrder tB) \<longrightarrow>
                  is_negative c) \<and>
               (number_key (prereleaseOrder tA) > number_key (prereleaseOrder tB) \<longrightarrow>
                  is_positive c) \<and>
               (tA = tB \<longrightarrow>
                 (m nA < m nB \<longrightarrow> is_negative c) \<and>
                 (m nA > m nB \<longrightarrow> is_positive c) \<and>
                 (m nA = m nB \<longrightarrow> c = Num 0))))))
       \<and> prereleaseOrder (str ''alpha'') = Num 1
       \<and> prereleaseOrder (str ''beta'') = Num 2
       \<and> prereleaseOrder (str ''rc'') = Num 3"
proof -
  let ?a = "version_string a1 a2 a3 preA"
  let ?b = "version_string b1 b2 b3 preB"
  note ka = version_key_exact[OF assms(1,3)]
  note kb = version_key_exact[OF assms(2,4)]
  have z: "compareVersions ?a ?b = Num 0 \<longleftrightarrow> version_key ?a = version_key ?b"
    using ka(2) by (intro compareVersions_zero) (simp add: finite_prerelease_def)
  show ?thesis
    unfolding Let_def compareVersions_key z ka(1) kb(1)
    using prereleaseOrder_key[of "fst (the preA)"] prereleaseOrder_key[of "fst (the preB)"]
    by (auto simp: prereleaseOrder_tags)
qed

text \<open>The prerelease number 2 is below 10, although the string \<open>10\<close> sorts before \<open>2\<close>.\<close>

theorem compareVersions_ordering_witness:
  "is_negative (compareVersions (str ''3.6.0-alpha.2'') (str ''3.6.0-alpha.10''))"
proof -
  have wA: "well_formed (str ''3'') (str ''6'') (str ''0'') (Some (str ''alpha'', str ''2''))"
    by code_simp
  have wB: "well_formed (str ''3'') (str ''6'') (str ''0'') (Some (str ''alpha'', str ''10''))"
    by code_simp
  have eA: "exact_runs (str ''3'') (str ''6'') (str ''0'') (Some (str ''alpha'', str ''2''))"
    by code_simp
  have eB: "exact_runs (str ''3'') (str ''6'') (str ''0'') (Some (str ''alpha'', str ''10''))"
    by code_simp
  have sA: "version_string (str ''3'') (str ''6'') (str ''0'') (Some (str ''alpha'', str ''2''))
      = str ''3.6.0-alpha.2''"
    by code_simp
  have sB: "version_string (str ''3'') (str ''6'') (str ''0'') (Some (str ''alpha'', str ''10''))
      = str ''3.6.0-alpha.10''"
    by code_simp
  have n: "decimal_value (str ''2'') < decimal_value (str ''10'')"
    by code_simp
  from compareVersions_ordering[OF wA wB eA eB] n show ?thesis
    unfolding sA sB Let_def by simp
qed

section \<open>Sorting and the history store\<close>

lemma mset_insort_by: "mset (insort_by cmp x ys) = add_mset x (mset ys)"
  by (induction ys) auto

lemma mset_sort_by: "mset (sort_by cmp xs) = mset xs"
  unfolding sort_by_def by (induction xs) (auto simp: mset_insort_by)

lemma set_insort_by: "set (insort_by cmp x ys) = insert x (set ys)"
  by (induction ys) auto

lemma sorted_insort_by:
  assumes trans: "\<And>a b c. \<not> is_positive (cmp a b) \<Longrightarrow> \<not> is_positive (cmp b c) \<Longrightarrow>
      \<not> is_positive (cmp a c)"
    and total: "\<And>a b. \<not> is_positive (cmp a b) \<or> \<not> is_positive (cmp b a)"
  shows "sorted_wrt (\<lambda>a b. \<not> is_positive (cmp a b)) ys \<Longrightarrow>
    sorted_wrt (\<lambda>a b. \<not> is_positive (cmp a b)) (insort_by cmp x ys)"
proof (induction ys)
  case Nil
  then show ?case by simp
next
  case (Cons y ys)
  show ?case
  proof (cases "is_positive (cmp x y)")
    case False
    have "\<not> is_positive (cmp x z)" if "z \<in> set ys" for z
    proof -
      from Cons.prems that have "\<not> is_positive (cmp y z)"
        by simp
      with False show ?thesis by (rule trans)
    qed
    with False Cons.prems show ?thesis by simp
  next
    case True
    then have yx: "\<not> is_positive (cmp y x)"
      using total[of x y] by blast
    from Cons.prems have "sorted_wrt (\<lambda>a b. \<not> is_positive (cmp a b)) ys"
      and "\<forall>z\<in>set ys. \<not> is_positive (cmp y z)"
      by simp_all
    with Cons.IH yx True show ?thesis
      by (simp add: set_insort_by)
  qed
qed

lemma sorted_sort_by:
  assumes trans: "\<forall>a b c. \<not> is_positive (cmp a b) \<longrightarrow> \<not> is_positive (cmp b c) \<longrightarrow>
      \<not> is_positive (cmp a c)"
    and total: "\<forall>a b. \<not> is_positive (cmp a b) \<or> \<not> is_positive (cmp b a)"
  shows "sorted_wrt (\<lambda>a b. \<not> is_positive (cmp a b)) (sort_by cmp xs)"
proof -
  have step: "sorted_wrt (\<lambda>a b. \<not> is_positive (cmp a b)) (insort_by cmp x ys)"
    if "sorted_wrt (\<lambda>a b. \<not> is_positive (cmp a b)) ys" for x ys
    using that
  proof (rule sorted_insort_by[rotated 2])
    show "\<not> is_positive (cmp a c)"
      if "\<not> is_positive (cmp a b)" "\<not> is_positive (cmp b c)" for a b c
      using trans that by blast
    show "\<not> is_positive (cmp a b) \<or> \<not> is_positive (cmp b a)" for a b
      using total by blast
  qed
  show ?thesis
    unfolding sort_by_def by (induction xs) (simp_all add: step)
qed

lemma sorted_writeHistory: "sorted_wrt version_le (readHistory (writeHistory entry f))"
proof -
  let ?cmp = "\<lambda>(a::BenchmarkEntry) (b::BenchmarkEntry).
    compareVersions (vueVersion a) (vueVersion b)"
  have "sorted_wrt (\<lambda>a b. \<not> is_positive (?cmp a b)) (sort_by ?cmp xs)" for xs
    using compareVersions_not_positive_trans compareVersions_not_positive_total
    by (intro sorted_sort_by) blast+
  then show ?thesis
    unfolding version_le_def[abs_def] by (simp add: writeHistory_def readHistory_def)
qed

lemma mset_writeHistory:
  "mset (readHistory (writeHistory entry f)) =
     add_mset entry (filter_mset (\<lambda>b. vueVersion b \<noteq> vueVersion entry) (mset (readHistory f)))"
  by (simp add: writeHistory_def readHistory_def mset_sort_by)

lemma filter_writeHistory:
  "mset (filter (\<lambda>b. vueVersion b = v) (readHistory (writeHistory entry f))) =
     (if v = vueVersion entry then {#entry#}
      else mset (filter (\<lambda>b. vueVersion b = v) (readHistory f)))"
proof -
  have "mset (filter (\<lambda>b. vueVersion b = v) (readHistory (writeHistory entry f))) =
      filter_mset (\<lambda>b. vueVersion b = v) (mset (readHistory (writeHistory entry f)))"
    by simp
  also have "\<dots> = (if v = vueVersion entry then {#entry#}
      else filter_mset (\<lambda>b. vueVersion b = v) (mset (readHistory f)))"
    unfolding mset_writeHistory
    by (auto simp: filter_filter_mset intro!: filter_mset_cong multiset_eqI)
  finally show ?thesis by simp
qed

lemma filter_writeHistory_all:
  "mset (filter (\<lambda>b. vueVersion b = v) (readHistory (writeHistory_all entries f))) =
     (if v \<in> vueVersion ` set entries
      then {#last (filter (\<lambda>e. vueVersion e = v) entries)#}
      else mset (filter (\<lambda>b. vueVersion b = v) (readHistory f)))"
proof (induction entries rule: rev_induct)
  case Nil
  then show ?case by (simp add: writeHistory_all_def)
next
  case (snoc e es)
  have step: "writeHistory_all (es @ [e]) f = writeHistory e (writeHistory_all es f)"
    by (simp add: writeHistory_all_def)
  show ?case
    unfolding step filter_writeHistory using snoc by auto
qed

lemma distinct_map_filter_le:
  "distinct (map g xs) \<longleftrightarrow> (\<forall>v. length (filter (\<lambda>x. g x = v) xs) \<le> 1)"
proof (induction xs)
  case Nil
  then show ?case by simp
next
  case (Cons x xs)
  have "g x \<notin> g ` set xs \<longleftrightarrow> filter (\<lambda>y. g y = g x) xs = []"
    unfolding filter_empty_conv image_iff by metis
  with Cons show ?case by (auto simp: le_Suc_eq)
qed

lemma mset_eq_single: "mset xs = {#x#} \<Longrightarrow> xs = [x]"
  by (cases xs) auto

text \<open>
  C1: from any starting history, after a sequence of writes the stored collection is
  sorted ascending under the version comparator and holds, for every version written,
  exactly one entry, the one written last for that version; its versions are those of
  the starting history and those written, and a starting history with one entry per
  version stays so. A single write is the sequence of one entry; two writes of the same
  version leave the second entry only.
\<close>

theorem writeHistory_invariant:
  assumes "entries \<noteq> []"
  shows "let h = readHistory (writeHistory_all entries f)
    in sorted_wrt version_le h \<and>
       (\<forall>v \<in> vueVersion ` set entries.
          filter (\<lambda>b. vueVersion b = v) h = [last (filter (\<lambda>e. vueVersion e = v) entries)]) \<and>
       vueVersion ` set h = vueVersion ` set (readHistory f) \<union> vueVersion ` set entries \<and>
       (distinct (map vueVersion (readHistory f)) \<longrightarrow> distinct (map vueVersion h))"
proof -
  define h where "h = readHistory (writeHistory_all entries f)"
  let ?sel = "\<lambda>v xs. filter (\<lambda>b. vueVersion b = v) xs"
  have m: "mset (?sel v h) =
      (if v \<in> vueVersion ` set entries then {#last (?sel v entries)#}
       else mset (?sel v (readHistory f)))" for v
    unfolding h_def by (rule filter_writeHistory_all)
  obtain es e where es: "entries = es @ [e]"
    using assms by (cases entries rule: rev_cases) auto
  have "h = readHistory (writeHistory e (writeHistory_all es f))"
    by (simp add: h_def es writeHistory_all_def)
  then have 1: "sorted_wrt version_le h"
    by (simp add: sorted_writeHistory)
  have 2: "\<forall>v \<in> vueVersion ` set entries. ?sel v h = [last (?sel v entries)]"
  proof
    fix v
    assume "v \<in> vueVersion ` set entries"
    then have "mset (?sel v h) = {#last (?sel v entries)#}"
      unfolding m by simp
    then show "?sel v h = [last (?sel v entries)]"
      by (rule mset_eq_single)
  qed
  have mem: "v \<in> vueVersion ` set xs \<longleftrightarrow> ?sel v xs \<noteq> []" for v and xs :: "BenchmarkEntry list"
    unfolding filter_empty_conv image_iff by metis
  have 3: "vueVersion ` set h = vueVersion ` set (readHistory f) \<union> vueVersion ` set entries"
  proof (rule set_eqI)
    fix v
    have "v \<in> vueVersion ` set h \<longleftrightarrow> ?sel v h \<noteq> []"
      by (rule mem)
    also have "\<dots> \<longleftrightarrow> mset (?sel v h) \<noteq> {#}"
      by (simp only: mset_zero_iff)
    also have "\<dots> \<longleftrightarrow> v \<in> vueVersion ` set entries \<or> ?sel v (readHistory f) \<noteq> []"
      unfolding m by (simp only: mset_zero_iff split: if_splits) simp
    also have "\<dots> \<longleftrightarrow> v \<in> vueVersion ` set (readHistory f) \<union> vueVersion ` set entries"
      using mem[of v "readHistory f"] by blast
    finally show "v \<in> vueVersion ` set h \<longleftrightarrow>
        v \<in> vueVersion ` set (readHistory f) \<union> vueVersion ` set entries" .
  qed
  have 4: "distinct (map vueVersion h)" if d: "distinct (map vueVersion (readHistory f))"
    unfolding distinct_map_filter_le
  proof
    fix v
    have "size (mset (?sel v h)) \<le> 1"
      unfolding m using d[unfolded distinct_map_filter_le, rule_format, of v]
      by (simp del: mset_filter)
    then show "length (?sel v h) \<le> 1"
      by (simp only: size_mset)
  qed
  from 1 2 3 4 show ?thesis
    unfolding Let_def h_def by blast
qed

text \<open>Three writes into an absent history file, the third repeating the version of the first.\<close>

theorem writeHistory_invariant_witness:
  "(let a = sample_entry (str ''3.6.0-alpha.2'') 21000;
        b = sample_entry (str ''3.6.0-alpha.10'') 20000;
        c = sample_entry (str ''3.6.0-alpha.2'') 19000;
        h = readHistory (writeHistory_all [a, b, c] None)
    in sorted_wrt version_le h \<and>
       filter (\<lambda>e. vueVersion e = str ''3.6.0-alpha.2'') h = [c] \<and>
       filter (\<lambda>e. vueVersion e = str ''3.6.0-alpha.10'') h = [b] \<and>
       vueVersion ` set h = {str ''3.6.0-alpha.2'', str ''3.6.0-alpha.10''} \<and>
       distinct (map vueVersion h))"
proof -
  let ?a = "sample_entry (str ''3.6.0-alpha.2'') 21000"
  let ?b = "sample_entry (str ''3.6.0-alpha.10'') 20000"
  let ?c = "sample_entry (str ''3.6.0-alpha.2'') 19000"
  let ?h = "readHistory (writeHistory_all [?a, ?b, ?c] None)"
  have ne: "[?a, ?b, ?c] \<noteq> []"
    by simp
  have va: "vueVersion ?a = str ''3.6.0-alpha.2''" "vueVersion ?c = str ''3.6.0-alpha.2''"
    and vb: "vueVersion ?b = str ''3.6.0-alpha.10''"
    by (simp_all add: sample_entry_def)
  have neq: "str ''3.6.0-alpha.10'' \<noteq> str ''3.6.0-alpha.2''"
    by (simp add: str_def)
  note inv = writeHistory_invariant[OF ne, of None, unfolded Let_def]
  have s: "sorted_wrt version_le ?h"
    using inv by blast
  have fa: "filter (\<lambda>b. vueVersion b = str ''3.6.0-alpha.2'') ?h = [?c]"
    using inv va vb neq by simp
  have fb: "filter (\<lambda>b. vueVersion b = str ''3.6.0-alpha.10'') ?h = [?b]"
    using inv va vb neq by simp
  have vs: "vueVersion ` set ?h = {str ''3.6.0-alpha.2'', str ''3.6.0-alpha.10''}"
    using inv va vb by (auto simp: readHistory_def)
  have d: "distinct (map vueVersion ?h)"
    using inv by (simp add: readHistory_def)
  from s fa fb vs d show ?thesis
    unfolding Let_def by blast
qed

section \<open>The report\<close>

text \<open>
  C8: a run in inspect mode leaves the history file as it was: \<open>writeReport\<close> calls
  \<open>writeHistory\<close> only when the inspect flag is off.
\<close>

theorem inspect_keeps_history:
  "history_store (writeReport True now version vaporSize classicSize vaporGzip classicGzip st) =
     history_store st"
  by (simp add: writeReport_def)

lemma length_recentBenchmarks:
  "length (recentBenchmarks bs) = min 10 (length (filter (\<lambda>b. mode b = Benchmark) bs))"
  by (simp add: recentBenchmarks_def slice_last_def HISTORY_DISPLAY_LIMIT_def)

lemma nth_recentBenchmarks:
  assumes "i < length (recentBenchmarks bs)"
  shows "recentBenchmarks bs ! i =
    (let shown = filter (\<lambda>b. mode b = Benchmark) bs in shown ! (length shown - 1 - i))"
proof -
  let ?shown = "filter (\<lambda>b. mode b = Benchmark) bs"
  let ?d = "drop (length ?shown - 10) ?shown"
  have i: "i < length ?d"
    using assms by (simp add: recentBenchmarks_def slice_last_def HISTORY_DISPLAY_LIMIT_def)
  have "recentBenchmarks bs ! i = rev ?d ! i"
    by (simp add: recentBenchmarks_def slice_last_def HISTORY_DISPLAY_LIMIT_def)
  also have "\<dots> = ?d ! (length ?d - Suc i)"
    using i by (rule rev_nth)
  also have "\<dots> = ?shown ! (length ?shown - 10 + (length ?d - Suc i))"
    using i by (simp add: nth_drop)
  also have "length ?shown - 10 + (length ?d - Suc i) = length ?shown - 1 - i"
    using i by simp
  finally show ?thesis by (simp add: Let_def)
qed

lemma length_history_rows: "length (history_rows recent) = length recent"
  by (simp add: history_rows_def)

lemma nth_history_rows:
  "i < length recent \<Longrightarrow>
   history_rows recent ! i = \<lparr>row_entry = recent ! i, row_trend = trend_at recent i\<rparr>"
  by (simp add: history_rows_def)

lemma list_all2_filter_same:
  assumes "list_all2 R xs ys" and "\<And>a b. R a b \<Longrightarrow> P a = Q b"
  shows "list_all2 R (filter P xs) (filter Q ys)"
  using assms by (induction rule: list_all2_induct) auto

lemma list_all2_recentBenchmarks:
  assumes "list_all2 (\<lambda>a b. mode a = mode b \<and> R a b) xs ys"
  shows "list_all2 (\<lambda>a b. mode a = mode b \<and> R a b) (recentBenchmarks xs) (recentBenchmarks ys)"
proof -
  let ?R = "\<lambda>a b. mode a = mode b \<and> R a b"
  let ?fx = "filter (\<lambda>b. mode b = Benchmark) xs"
  let ?fy = "filter (\<lambda>b. mode b = Benchmark) ys"
  have f: "list_all2 ?R ?fx ?fy"
    using assms by (rule list_all2_filter_same) simp
  then have "length ?fx = length ?fy"
    by (rule list_all2_lengthD)
  then show ?thesis
    unfolding recentBenchmarks_def slice_last_def list_all2_rev
    using f by (simp add: list_all2_dropI)
qed

lemma trend_at_cong:
  assumes "list_all2 (\<lambda>a b. mode a = mode b \<and> gzipped (vapor a) = gzipped (vapor b)) xs ys"
  shows "trend_at xs i = trend_at ys i"
proof -
  have len: "length xs = length ys"
    using assms by (rule list_all2_lengthD)
  have nth: "gzipped (vapor (xs ! k)) = gzipped (vapor (ys ! k))" if "k < length xs" for k
    using list_all2_nthD[OF assms that] by simp
  show ?thesis
    unfolding trend_at_def Let_def len[symmetric]
    by (auto simp: nth)
qed

lemma map_row_trend: "map row_trend (history_rows recent) = map (trend_at recent) [0..<length recent]"
  by (simp add: history_rows_def comp_def)

text \<open>
  C9: when the current entry is not an inspection run, the report shows the last ten
  benchmark-mode entries of the history (all of them when there are fewer), the last
  one first. Each row but the last has the trend of its gzipped Vapor size against the
  next row: improving when it is lower by more than 100 bytes, regressing when it is
  higher by more than 100 bytes, stable otherwise. The last row has no trend, whether or
  not the history holds older entries.
\<close>

theorem report_history_rows:
  assumes "mode current \<noteq> Inspect"
  shows "let shown = filter (\<lambda>b. mode b = Benchmark) benchmarks;
             rows = report_rows (generateMarkdownReport current benchmarks)
    in length rows = min 10 (length shown) \<and>
       (\<forall>i < length rows. row_entry (rows ! i) = shown ! (length shown - 1 - i)) \<and>
       (\<forall>i. i + 1 < length rows \<longrightarrow>
          (let change = gzipped (vapor (row_entry (rows ! i))) -
                        gzipped (vapor (row_entry (rows ! (i + 1))))
           in row_trend (rows ! i) =
                (if change < - 100 then Improving
                 else if change > 100 then Regressing else Stable))) \<and>
       (rows \<noteq> [] \<longrightarrow> row_trend (last rows) = NoTrend)"
proof -
  let ?shown = "filter (\<lambda>b. mode b = Benchmark) benchmarks"
  let ?recent = "recentBenchmarks benchmarks"
  let ?rows = "report_rows (generateMarkdownReport current benchmarks)"
  have rows: "?rows = history_rows ?recent"
  proof (cases "benchmarks = []")
    case True
    then show ?thesis
      by (simp add: generateMarkdownReport_def history_rows_def recentBenchmarks_def
          slice_last_def)
  next
    case False
    with assms show ?thesis by (simp add: generateMarkdownReport_def)
  qed
  have len: "length ?rows = length ?recent"
    by (simp add: rows length_history_rows)
  have 1: "length ?rows = min 10 (length ?shown)"
    by (simp add: len length_recentBenchmarks)
  have 2: "\<forall>i < length ?rows. row_entry (?rows ! i) = ?shown ! (length ?shown - 1 - i)"
    using nth_recentBenchmarks[of _ benchmarks]
    by (simp add: rows length_history_rows nth_history_rows Let_def)
  have 3: "\<forall>i. i + 1 < length ?rows \<longrightarrow>
          (let change = gzipped (vapor (row_entry (?rows ! i))) -
                        gzipped (vapor (row_entry (?rows ! (i + 1))))
           in row_trend (?rows ! i) =
                (if change < - 100 then Improving
                 else if change > 100 then Regressing else Stable))"
    by (auto simp: rows length_history_rows nth_history_rows trend_at_def Let_def
        TREND_THRESHOLD_BYTES_def)
  have 4: "row_trend (last ?rows) = NoTrend" if "?rows \<noteq> []"
  proof -
    from that have "0 < length ?rows" by blast
    then have "0 < length ?recent" unfolding len .
    then show ?thesis
      by (simp add: rows last_conv_nth length_history_rows nth_history_rows trend_at_def
          history_rows_def)
  qed
  from 1 2 3 4 show ?thesis
    unfolding Let_def by blast
qed

text \<open>
  Eleven benchmark entries and one inspection entry: ten rows, the newest first; the last
  row, for alpha.2, has no trend although alpha.1 is in the history.
\<close>

theorem report_history_rows_witness:
  "(let rows = report_rows
                 (generateMarkdownReport (sample_entry (str ''3.6.0'') 20700) sample_history)
    in length rows = 10 \<and>
       row_entry (rows ! 0) = sample_entry (str ''3.6.0'') 20700 \<and>
       row_entry (rows ! 1) = sample_entry (str ''3.6.0-beta.1'') 20801 \<and>
       row_entry (rows ! 9) = sample_entry (str ''3.6.0-alpha.2'') 21050 \<and>
       row_trend (rows ! 0) = Improving \<and>
       row_trend (rows ! 1) = Regressing \<and>
       row_trend (last rows) = NoTrend)"
proof -
  let ?cur = "sample_entry (str ''3.6.0'') 20700"
  let ?rows = "report_rows (generateMarkdownReport ?cur sample_history)"
  have m: "mode ?cur \<noteq> Inspect"
    by (simp add: sample_entry_def)
  have shown: "filter (\<lambda>b. mode b = Benchmark) sample_history =
     [sample_entry (str ''3.6.0-alpha.1'') 21000,
      sample_entry (str ''3.6.0-alpha.2'') 21050,
      sample_entry (str ''3.6.0-alpha.3'') 21400,
      sample_entry (str ''3.6.0-alpha.4'') 21300,
      sample_entry (str ''3.6.0-alpha.6'') 21199,
      sample_entry (str ''3.6.0-alpha.7'') 21000,
      sample_entry (str ''3.6.0-alpha.8'') 20800,
      sample_entry (str ''3.6.0-alpha.9'') 20900,
      sample_entry (str ''3.6.0-alpha.10'') 20700,
      sample_entry (str ''3.6.0-beta.1'') 20801,
      sample_entry (str ''3.6.0'') 20700]"
    by (simp add: sample_history_def sample_entry_def)
  note r = report_history_rows[OF m, of sample_history, unfolded Let_def shown]
  have len: "length ?rows = 10"
    using r by simp
  then have ne: "?rows \<noteq> []"
    by auto
  have e0: "row_entry (?rows ! 0) = sample_entry (str ''3.6.0'') 20700"
    and e1: "row_entry (?rows ! 1) = sample_entry (str ''3.6.0-beta.1'') 20801"
    and e9: "row_entry (?rows ! 9) = sample_entry (str ''3.6.0-alpha.2'') 21050"
    using r len by simp_all
  have e2: "row_entry (?rows ! 2) = sample_entry (str ''3.6.0-alpha.10'') 20700"
    using r len by simp
  have g0: "gzipped (vapor (row_entry (?rows ! 0))) = 20700"
    and g1: "gzipped (vapor (row_entry (?rows ! Suc 0))) = 20801"
    and g2: "gzipped (vapor (row_entry (?rows ! Suc (Suc 0)))) = 20700"
    using e0 e1 e2 by (simp_all add: sample_entry_def numeral_2_eq_2)
  note trend = r[THEN conjunct2, THEN conjunct2, THEN conjunct1, rule_format]
  have t0: "row_trend (?rows ! 0) = Improving"
    using trend[of 0] len by (simp add: g0 g1)
  have t1: "row_trend (?rows ! 1) = Regressing"
    using trend[of "Suc 0"] len by (simp add: g1 g2)
  have tl: "row_trend (last ?rows) = NoTrend"
    using r ne by blast
  from len e0 e1 e9 t0 t1 tl show ?thesis
    unfolding Let_def by blast
qed

text \<open>
  C10: the trend of a row is decided by the gzipped Vapor size of its entry minus that of
  the entry of the next row. Two histories whose entries agree, position by position, in
  mode and in gzipped Vapor size give the same trends, whatever their delta fields, raw
  sizes and Classic sizes are.
\<close>

theorem trend_from_vapor_gzipped:
  assumes "list_all2 (\<lambda>a b. mode a = mode b \<and> gzipped (vapor a) = gzipped (vapor b))
             benchmarks benchmarks'"
  shows "map row_trend (report_rows (generateMarkdownReport current benchmarks)) =
         map row_trend (report_rows (generateMarkdownReport current benchmarks')) \<and>
    (let rows = report_rows (generateMarkdownReport current benchmarks)
     in \<forall>i. i + 1 < length rows \<longrightarrow>
          (row_trend (rows ! i) = Improving \<longleftrightarrow>
             gzipped (vapor (row_entry (rows ! i))) -
             gzipped (vapor (row_entry (rows ! (i + 1)))) < - 100) \<and>
          (row_trend (rows ! i) = Regressing \<longleftrightarrow>
             gzipped (vapor (row_entry (rows ! i))) -
             gzipped (vapor (row_entry (rows ! (i + 1)))) > 100))"
proof -
  let ?R = "\<lambda>a b. mode a = mode b \<and> gzipped (vapor a) = gzipped (vapor b)"
  have len: "length benchmarks = length benchmarks'"
    using assms by (rule list_all2_lengthD)
  have rec: "list_all2 ?R (recentBenchmarks benchmarks) (recentBenchmarks benchmarks')"
    using assms by (rule list_all2_recentBenchmarks)
  then have rlen: "length (recentBenchmarks benchmarks) = length (recentBenchmarks benchmarks')"
    by (rule list_all2_lengthD)
  have "map row_trend (history_rows (recentBenchmarks benchmarks)) =
        map row_trend (history_rows (recentBenchmarks benchmarks'))"
    unfolding map_row_trend rlen using trend_at_cong[OF rec] by simp
  then have 1: "map row_trend (report_rows (generateMarkdownReport current benchmarks)) =
         map row_trend (report_rows (generateMarkdownReport current benchmarks'))"
    using len by (simp add: generateMarkdownReport_def)
  have 2: "\<forall>i. i + 1 < length rows \<longrightarrow>
          (row_trend (rows ! i) = Improving \<longleftrightarrow>
             gzipped (vapor (row_entry (rows ! i))) -
             gzipped (vapor (row_entry (rows ! (i + 1)))) < - 100) \<and>
          (row_trend (rows ! i) = Regressing \<longleftrightarrow>
             gzipped (vapor (row_entry (rows ! i))) -
             gzipped (vapor (row_entry (rows ! (i + 1)))) > 100)"
    if "rows = report_rows (generateMarkdownReport current benchmarks)" for rows
    unfolding that
    by (auto simp: generateMarkdownReport_def length_history_rows nth_history_rows trend_at_def
        Let_def TREND_THRESHOLD_BYTES_def)
  from 1 2 show ?thesis
    unfolding Let_def by blast
qed

text \<open>The sample history against a copy with all other sizes overwritten.\<close>

theorem trend_from_vapor_gzipped_witness:
  "(let scrambled =
          map (\<lambda>e. e\<lparr>timestamp := [], vapor := (vapor e)\<lparr>raw := 0\<rparr>,
                      classic := \<lparr>raw = 1, gzipped = 1\<rparr>, delta := \<lparr>raw = 0, gzipped = 0\<rparr>\<rparr>)
            sample_history
    in map row_trend
         (report_rows (generateMarkdownReport (sample_entry (str ''3.6.0'') 20700) sample_history)) =
       map row_trend
         (report_rows (generateMarkdownReport (sample_entry (str ''3.6.0'') 20700) scrambled)))"
proof -
  let ?f = "\<lambda>e. e\<lparr>timestamp := [], vapor := (vapor e)\<lparr>raw := 0\<rparr>,
                      classic := \<lparr>raw = 1, gzipped = 1\<rparr>, delta := \<lparr>raw = 0, gzipped = 0\<rparr>\<rparr>"
  have "list_all2 (\<lambda>a b. mode a = mode b \<and> gzipped (vapor a) = gzipped (vapor b))
          sample_history (map ?f sample_history)"
    by (simp add: list_all2_map2 list_all2_same)
  from trend_from_vapor_gzipped[OF this, of "sample_entry (str ''3.6.0'') 20700"]
  show ?thesis
    unfolding Let_def by blast
qed

section \<open>The source transform\<close>

lemma str_gt: "str ''>'' = [62]"
  by (simp add: str_def)

lemma str_script: "str ''<script'' = [60, 115, 99, 114, 105, 112, 116]"
  by (simp add: str_def)

lemma str_setup: "str ''setup'' = [115, 101, 116, 117, 112]"
  by (simp add: str_def)

lemma str_vapor: "str ''vapor'' = [118, 97, 112, 111, 114]"
  by (simp add: str_def)

lemma run_split:
  assumes "\<forall>c\<in>set ws. P c" and "case rest of [] \<Rightarrow> True | c # _ \<Rightarrow> \<not> P c"
  shows "takeWhile P (ws @ rest) = ws" and "dropWhile P (ws @ rest) = rest"
proof -
  have "takeWhile P rest = []" "dropWhile P rest = rest"
    using assms(2) by (auto split: list.splits)
  then show "takeWhile P (ws @ rest) = ws" "dropWhile P (ws @ rest) = rest"
    using assms(1) by simp_all
qed

lemma run_decompose:
  assumes "ws = takeWhile P s" and "rest = dropWhile P s"
  shows "s = ws @ rest" and "\<forall>c\<in>set ws. P c" and "case rest of [] \<Rightarrow> True | c # _ \<Rightarrow> \<not> P c"
proof -
  show "s = ws @ rest"
    using assms by simp
  show "\<forall>c\<in>set ws. P c"
    using assms by (auto dest: set_takeWhileD)
  show "case rest of [] \<Rightarrow> True | c # _ \<Rightarrow> \<not> P c"
    using assms(2) by (auto split: list.splits dest: dropWhile_eq_Cons_conv[THEN iffD1])
qed

lemma replace_first_here: "m s = Some (x, r) \<Longrightarrow> replace_first m f s = f x @ r"
  by (cases s) simp_all

lemma replace_first_no_match:
  "(\<And>pre rest. s = pre @ rest \<Longrightarrow> m rest = None) \<Longrightarrow> replace_first m f s = s"
proof (induction s)
  case Nil
  then show ?case by simp
next
  case (Cons c cs)
  have "m (c # cs) = None"
    using Cons.prems[of "[]" "c # cs"] by simp
  moreover have "replace_first m f cs = cs"
  proof (rule Cons.IH)
    fix pre rest
    assume "cs = pre @ rest"
    then show "m rest = None"
      using Cons.prems[of "c # pre" rest] by simp
  qed
  ultimately show ?case by simp
qed

lemma replace_first_match:
  assumes "m rest = Some (x, r)"
    and "\<And>pre' rest'. pre @ rest = pre' @ rest' \<Longrightarrow> length pre' < length pre \<Longrightarrow> m rest' = None"
  shows "replace_first m f (pre @ rest) = pre @ f x @ r"
  using assms(2)
proof (induction pre)
  case Nil
  show ?case using assms(1) by (simp add: replace_first_here)
next
  case (Cons c pre)
  have "m (c # pre @ rest) = None"
    using Cons.prems[of "[]" "c # pre @ rest"] by simp
  moreover have "replace_first m f (pre @ rest) = pre @ f x @ r"
  proof (rule Cons.IH)
    fix pre' rest'
    assume "pre @ rest = pre' @ rest'" "length pre' < length pre"
    then show "m rest' = None"
      using Cons.prems[of "c # pre'" rest'] by simp
  qed
  ultimately show ?case by simp
qed

lemma match_script_setup_iff:
  "match_script_setup s = Some (x, r) \<longleftrightarrow> s = x @ r \<and> script_setup_tag x"
proof
  assume "match_script_setup s = Some (x, r)"
  then obtain r1 r3 c where
    r1: "strip_prefix (str ''<script'') s = Some r1"
    and ws: "takeWhile is_space r1 \<noteq> []"
    and r3: "strip_prefix (str ''setup'') (dropWhile is_space r1) = Some r3"
    and r4: "dropWhile (\<lambda>c. c \<noteq> 62) r3 = c # r"
    and x: "x = str ''<script'' @ takeWhile is_space r1 @ str ''setup'' @
              takeWhile (\<lambda>c. c \<noteq> 62) r3 @ [c]"
    by (auto simp: match_script_setup_def Let_def split: option.splits if_splits list.splits)
  define ws' where "ws' = takeWhile is_space r1"
  define body where "body = takeWhile (\<lambda>c. c \<noteq> 62) r3"
  have c: "c = 62"
    using r4 by (auto dest: dropWhile_eq_Cons_conv[THEN iffD1])
  have sp: "spaces ws'"
    using ws by (auto simp: spaces_def ws'_def list_all_iff dest: set_takeWhileD)
  have nb: "62 \<notin> set body"
    by (auto simp: body_def dest: set_takeWhileD)
  have "s = str ''<script'' @ r1"
    using r1 by (simp add: strip_prefix_iff)
  moreover have "r1 = ws' @ dropWhile is_space r1"
    by (simp add: ws'_def)
  moreover have "dropWhile is_space r1 = str ''setup'' @ r3"
    using r3 by (simp add: strip_prefix_iff)
  moreover have "r3 = body @ c # r"
    using r4 by (metis body_def takeWhile_dropWhile_id)
  ultimately have s: "s = str ''<script'' @ ws' @ str ''setup'' @ body @ c # r"
    by simp
  have "script_setup_tag x"
    unfolding script_setup_tag_def using sp nb x c
    by (auto simp: ws'_def body_def str_gt)
  then show "s = x @ r \<and> script_setup_tag x"
    using s x by (simp add: ws'_def body_def)
next
  assume a: "s = x @ r \<and> script_setup_tag x"
  then obtain ws body where sp: "spaces ws" and nb: "62 \<notin> set body"
    and x: "x = str ''<script'' @ ws @ str ''setup'' @ body @ str ''>''"
    by (auto simp: script_setup_tag_def)
  have s: "s = str ''<script'' @ ws @ str ''setup'' @ body @ 62 # r"
    using a x by (simp add: str_gt)
  have 1: "strip_prefix (str ''<script'') (str ''<script'' @ t) = Some t" for t
    by (simp add: strip_prefix_iff)
  have 2: "takeWhile is_space (ws @ str ''setup'' @ t) = ws"
    "dropWhile is_space (ws @ str ''setup'' @ t) = str ''setup'' @ t" for t
    using sp by (auto intro!: run_split simp: spaces_def list_all_iff str_setup is_space_def)
  have 3: "strip_prefix (str ''setup'') (str ''setup'' @ t) = Some t" for t
    by (simp add: strip_prefix_iff)
  have 4: "takeWhile (\<lambda>c. c \<noteq> 62) (body @ 62 # r) = body"
    "dropWhile (\<lambda>c. c \<noteq> 62) (body @ 62 # r) = 62 # r"
    using nb by (auto intro!: run_split)
  have ne: "ws \<noteq> []"
    using sp by (simp add: spaces_def)
  have "match_script_setup s =
      Some (str ''<script'' @ ws @ str ''setup'' @ body @ [62], r)"
    unfolding s match_script_setup_def 1 by (simp add: 2 3 4 ne)
  then show "match_script_setup s = Some (x, r)"
    by (simp add: x str_gt)
qed

lemma match_vapor_iff:
  "match_vapor s = Some (x, r) \<longleftrightarrow>
     s = x @ r \<and> (\<exists>ws. spaces ws \<and> x = ws @ str ''vapor'') \<and> followed_by_space_or_gt r"
proof
  assume "match_vapor s = Some (x, r)"
  then have ws: "takeWhile is_space s \<noteq> []"
    and r: "strip_prefix (str ''vapor'') (dropWhile is_space s) = Some r"
    and f: "followed_by_space_or_gt r"
    and x: "x = takeWhile is_space s @ str ''vapor''"
    by (auto simp: match_vapor_def Let_def followed_by_space_or_gt_def
        split: option.splits if_splits list.splits)
  have "spaces (takeWhile is_space s)"
    using ws by (auto simp: spaces_def list_all_iff dest: set_takeWhileD)
  moreover have "s = takeWhile is_space s @ str ''vapor'' @ r"
    using r by (metis strip_prefix_iff takeWhile_dropWhile_id)
  ultimately show "s = x @ r \<and> (\<exists>ws. spaces ws \<and> x = ws @ str ''vapor'') \<and> followed_by_space_or_gt r"
    using x f by auto
next
  assume a: "s = x @ r \<and> (\<exists>ws. spaces ws \<and> x = ws @ str ''vapor'') \<and> followed_by_space_or_gt r"
  then obtain ws where sp: "spaces ws" and x: "x = ws @ str ''vapor''"
    by auto
  have 2: "takeWhile is_space (ws @ str ''vapor'' @ r) = ws"
    "dropWhile is_space (ws @ str ''vapor'' @ r) = str ''vapor'' @ r"
    using sp by (auto intro!: run_split simp: spaces_def list_all_iff str_vapor is_space_def)
  have 3: "strip_prefix (str ''vapor'') (str ''vapor'' @ r) = Some r"
    by (simp add: strip_prefix_iff)
  have ne: "ws \<noteq> []"
    using sp by (simp add: spaces_def)
  have s: "s = ws @ str ''vapor'' @ r"
    using a x by simp
  show "match_vapor s = Some (x, r)"
    using a by (auto simp: match_vapor_def s 2 3 ne x followed_by_space_or_gt_def split: list.splits)
qed


lemma tag_at_match:
  "tag_at source pre tag post \<longleftrightarrow>
     source = pre @ tag @ post \<and> match_script_setup (tag @ post) = Some (tag, post)"
  by (simp add: tag_at_def match_script_setup_iff)

lemma vapor_at_match:
  "vapor_at tag p x q \<longleftrightarrow> tag = p @ x @ q \<and> match_vapor (x @ q) = Some (x, q)"
  by (simp add: vapor_at_def match_vapor_iff)

lemma no_tag_no_match:
  assumes "\<not> (\<exists>pre tag post. tag_at source pre tag post)" and "source = pre @ rest"
  shows "match_script_setup rest = None"
proof (rule ccontr)
  assume "match_script_setup rest \<noteq> None"
  then obtain x r where "match_script_setup rest = Some (x, r)"
    by auto
  then have "tag_at source pre x r"
    using assms(2) by (simp add: match_script_setup_iff tag_at_def)
  then show False using assms(1) by blast
qed

lemma no_vapor_no_match:
  assumes "\<not> (\<exists>p x q. vapor_at tag p x q)" and "tag = p @ rest"
  shows "match_vapor rest = None"
proof (rule ccontr)
  assume "match_vapor rest \<noteq> None"
  then obtain x r where "match_vapor rest = Some (x, r)"
    by auto
  then have "vapor_at tag p x r"
    using assms(2) by (simp add: match_vapor_iff vapor_at_def)
  then show False using assms(1) by blast
qed

lemma first_tag_replace:
  assumes "first_tag source pre tag post"
  shows "replace_first match_script_setup f source = pre @ f tag @ post"
proof -
  have src: "source = pre @ tag @ post"
    and m: "match_script_setup (tag @ post) = Some (tag, post)"
    using assms by (simp_all add: first_tag_def tag_at_match)
  have "replace_first match_script_setup f (pre @ tag @ post) = pre @ f tag @ post"
  proof (rule replace_first_match[where m = match_script_setup and rest = "tag @ post"
          and pre = pre, OF m])
    fix pre' rest'
    assume eq: "pre @ tag @ post = pre' @ rest'" and less: "length pre' < length pre"
    show "match_script_setup rest' = None"
    proof (rule ccontr)
      assume "match_script_setup rest' \<noteq> None"
      then obtain x r where "match_script_setup rest' = Some (x, r)"
        by auto
      then have "tag_at source pre' x r"
        using eq src by (simp add: match_script_setup_iff tag_at_def)
      then have "length pre \<le> length pre'"
        using assms unfolding first_tag_def by blast
      then show False using less by simp
    qed
  qed
  then show ?thesis by (simp add: src)
qed

lemma first_vapor_replace:
  assumes "first_vapor tag p x q"
  shows "replace_first match_vapor f tag = p @ f x @ q"
proof -
  have tag: "tag = p @ x @ q"
    and m: "match_vapor (x @ q) = Some (x, q)"
    using assms by (simp_all add: first_vapor_def vapor_at_match)
  have "replace_first match_vapor f (p @ x @ q) = p @ f x @ q"
  proof (rule replace_first_match[where m = match_vapor and rest = "x @ q" and pre = p, OF m])
    fix p' rest'
    assume eq: "p @ x @ q = p' @ rest'" and less: "length p' < length p"
    show "match_vapor rest' = None"
    proof (rule ccontr)
      assume "match_vapor rest' \<noteq> None"
      then obtain y r where "match_vapor rest' = Some (y, r)"
        by auto
      then have "vapor_at tag p' y r"
        using eq tag by (simp add: match_vapor_iff vapor_at_def)
      then have "length p \<le> length p'"
        using assms unfolding first_vapor_def by blast
      then show False using less by simp
    qed
  qed
  then show ?thesis by (simp add: tag)
qed

lemma first_tag_exists:
  assumes "tag_at source pre tag post"
  shows "\<exists>pre' tag' post'. first_tag source pre' tag' post'"
proof -
  let ?P = "\<lambda>n. \<exists>pre tag post. tag_at source pre tag post \<and> length pre = n"
  have "\<exists>n. ?P n"
    using assms by blast
  then obtain n where n: "?P n" and least: "\<forall>k<n. \<not> ?P k"
    unfolding exists_least_iff[of ?P] by blast
  from n obtain pre' tag' post' where t: "tag_at source pre' tag' post'" and l: "length pre' = n"
    by blast
  have "length pre' \<le> length pre''" if "tag_at source pre'' tag'' post''" for pre'' tag'' post''
    using that least l by (metis not_le_imp_less)
  with t have "first_tag source pre' tag' post'"
    unfolding first_tag_def by blast
  then show ?thesis by blast
qed

lemma first_vapor_exists:
  assumes "vapor_at tag p x q"
  shows "\<exists>p' x' q'. first_vapor tag p' x' q'"
proof -
  let ?P = "\<lambda>n. \<exists>p x q. vapor_at tag p x q \<and> length p = n"
  have "\<exists>n. ?P n"
    using assms by blast
  then obtain n where n: "?P n" and least: "\<forall>k<n. \<not> ?P k"
    unfolding exists_least_iff[of ?P] by blast
  from n obtain p' x' q' where t: "vapor_at tag p' x' q'" and l: "length p' = n"
    by blast
  have "length p' \<le> length p''" if "vapor_at tag p'' x'' q''" for p'' x'' q''
    using that least l by (metis not_le_imp_less)
  with t have "first_vapor tag p' x' q'"
    unfolding first_vapor_def by blast
  then show ?thesis by blast
qed

lemma first_tagI:
  assumes "source = pre @ tag @ post"
    and "match_script_setup (tag @ post) = Some (tag, post)"
    and "list_all (\<lambda>k. match_script_setup (drop k source) = None) [0..<length pre]"
  shows "first_tag source pre tag post"
  unfolding first_tag_def
proof (intro conjI allI impI)
  show "tag_at source pre tag post"
    using assms(1,2) by (simp add: tag_at_match)
  fix pre' tag' post'
  assume "tag_at source pre' tag' post'"
  then have "match_script_setup (drop (length pre') source) \<noteq> None"
    by (auto simp: tag_at_match)
  moreover have "\<forall>k<length pre. match_script_setup (drop k source) = None"
    using assms(3) by (simp add: list_all_iff)
  ultimately show "length pre \<le> length pre'"
    by (metis not_le_imp_less)
qed

lemma first_vaporI:
  assumes "tag = p @ x @ q"
    and "match_vapor (x @ q) = Some (x, q)"
    and "list_all (\<lambda>k. match_vapor (drop k tag) = None) [0..<length p]"
  shows "first_vapor tag p x q"
  unfolding first_vapor_def
proof (intro conjI allI impI)
  show "vapor_at tag p x q"
    using assms(1,2) by (simp add: vapor_at_match)
  fix p' x' q'
  assume "vapor_at tag p' x' q'"
  then have "match_vapor (drop (length p') tag) \<noteq> None"
    by (auto simp: vapor_at_match)
  moreover have "\<forall>k<length p. match_vapor (drop k tag) = None"
    using assms(3) by (simp add: list_all_iff)
  ultimately show "length p \<le> length p'"
    by (metis not_le_imp_less)
qed

text \<open>
  C7: the transform is one substitution. A source with no script-setup tag is returned
  as it is. Otherwise the source is the text before the first such tag, the tag, and
  the text after it; the text before and the text after are kept, and within the tag
  the first vapor token (the white space before \<open>vapor\<close> and the word itself) is
  removed, or the tag is kept when it has no such token.
\<close>

theorem stripVaporAttribute_single_substitution:
  "(\<not> (\<exists>pre tag post. tag_at source pre tag post) \<longrightarrow> stripVaporAttribute source = source) \<and>
   (first_tag source pre tag post \<longrightarrow>
      (\<not> (\<exists>p x q. vapor_at tag p x q) \<longrightarrow> stripVaporAttribute source = source) \<and>
      (first_vapor tag p x q \<longrightarrow>
         source = pre @ p @ x @ q @ post \<and>
         stripVaporAttribute source = pre @ p @ q @ post))"
proof (intro conjI impI)
  assume "\<not> (\<exists>pre tag post. tag_at source pre tag post)"
  then show "stripVaporAttribute source = source"
    unfolding stripVaporAttribute_def
    by (intro replace_first_no_match no_tag_no_match)
next
  assume ft: "first_tag source pre tag post" and "\<not> (\<exists>p x q. vapor_at tag p x q)"
  then have "replace_first match_vapor (\<lambda>_. []) tag = tag"
    by (intro replace_first_no_match no_vapor_no_match)
  moreover have "source = pre @ tag @ post"
    using ft by (simp add: first_tag_def tag_at_def)
  ultimately show "stripVaporAttribute source = source"
    unfolding stripVaporAttribute_def first_tag_replace[OF ft] by simp
next
  assume ft: "first_tag source pre tag post" and fv: "first_vapor tag p x q"
  have "source = pre @ tag @ post"
    using ft by (simp add: first_tag_def tag_at_def)
  moreover have "tag = p @ x @ q"
    using fv by (simp add: first_vapor_def vapor_at_def)
  ultimately show "source = pre @ p @ x @ q @ post"
    by simp
  show "stripVaporAttribute source = pre @ p @ q @ post"
    unfolding stripVaporAttribute_def first_tag_replace[OF ft] first_vapor_replace[OF fv]
    by simp
qed

text \<open>
  A component where the first script-setup tag carries the attribute: the token in the
  tag goes, the later occurrences stay. A component with no script-setup tag (the
  expression is case-sensitive) is unchanged.
\<close>

theorem stripVaporAttribute_single_substitution_witness:
  "stripVaporAttribute (str ''<template/><script setup vapor lang=ts> vapor <script setup vapor>'') =
     str ''<template/><script setup lang=ts> vapor <script setup vapor>'' \<and>
   stripVaporAttribute (str ''<script vapor><Script setup vapor>'') =
     str ''<script vapor><Script setup vapor>''"
proof -
  let ?src = "str ''<template/><script setup vapor lang=ts> vapor <script setup vapor>''"
  let ?pre = "str ''<template/>''"
  let ?tag = "str ''<script setup vapor lang=ts>''"
  let ?post = "str '' vapor <script setup vapor>''"
  let ?p = "str ''<script setup''"
  let ?x = "str '' vapor''"
  let ?q = "str '' lang=ts>''"
  have ft: "first_tag ?src ?pre ?tag ?post"
  proof (rule first_tagI)
    show "?src = ?pre @ ?tag @ ?post"
      by (simp add: str_def)
    show "match_script_setup (?tag @ ?post) = Some (?tag, ?post)"
      by (simp add: str_def match_script_setup_def strip_prefix_def is_space_def)
    show "list_all (\<lambda>k. match_script_setup (drop k ?src) = None) [0..<length ?pre]"
      by (simp add: str_def match_script_setup_def strip_prefix_def is_space_def upt_rec)
  qed
  have fv: "first_vapor ?tag ?p ?x ?q"
  proof (rule first_vaporI)
    show "?tag = ?p @ ?x @ ?q"
      by (simp add: str_def)
    show "match_vapor (?x @ ?q) = Some (?x, ?q)"
      by (simp add: str_def match_vapor_def strip_prefix_def is_space_def)
    show "list_all (\<lambda>k. match_vapor (drop k ?tag) = None) [0..<length ?p]"
      by (simp add: str_def match_vapor_def strip_prefix_def is_space_def upt_rec)
  qed
  have out: "?pre @ ?p @ ?q @ ?post =
      str ''<template/><script setup lang=ts> vapor <script setup vapor>''"
    by (simp add: str_def)
  have "stripVaporAttribute ?src = ?pre @ ?p @ ?q @ ?post"
    using stripVaporAttribute_single_substitution[of ?src ?pre ?tag ?post ?p ?x ?q] ft fv
    by blast
  then have 1: "stripVaporAttribute ?src =
      str ''<template/><script setup lang=ts> vapor <script setup vapor>''"
    by (simp only: out)
  let ?src2 = "str ''<script vapor><Script setup vapor>''"
  have "list_all (\<lambda>k. match_script_setup (drop k ?src2) = None) [0..<Suc (length ?src2)]"
    by (simp add: str_def match_script_setup_def strip_prefix_def is_space_def upt_rec)
  then have all: "\<forall>k\<in>set [0..<Suc (length ?src2)]. match_script_setup (drop k ?src2) = None"
    by (simp only: list_all_iff)
  have none: "match_script_setup (drop k ?src2) = None" if "k \<le> length ?src2" for k
  proof -
    from that have "k \<in> set [0..<Suc (length ?src2)]"
      by (simp only: set_upt atLeastLessThan_iff less_Suc_eq_le) simp
    with all show ?thesis by blast
  qed
  have "\<not> (\<exists>pre tag post. tag_at ?src2 pre tag post)"
  proof
    assume "\<exists>pre tag post. tag_at ?src2 pre tag post"
    then obtain pre tag post where t: "?src2 = pre @ tag @ post"
      "match_script_setup (tag @ post) = Some (tag, post)"
      unfolding tag_at_match by blast
    from t(1) have "length pre \<le> length ?src2" "drop (length pre) ?src2 = tag @ post"
      by simp_all
    with none[of "length pre"] t(2) show False
      by simp
  qed
  then have 2: "stripVaporAttribute ?src2 = ?src2"
    using stripVaporAttribute_single_substitution[of ?src2] by blast
  from 1 2 show ?thesis by blast
qed

section \<open>The tracked files\<close>

text \<open>Bytes below 128 are their own text, and the text is its own encoding.\<close>

lemma utf8_decode_from_ascii:
  "list_all (\<lambda>b. b < 0x80) bs \<Longrightarrow> utf8_decode_from 0 0 0x80 0xBF bs = bs"
  by (induction bs) simp_all

lemma concat_utf16_units: "list_all (\<lambda>c. c < 0x80) cs \<Longrightarrow> concat (map utf16_units cs) = cs"
  by (induction cs) (simp_all add: utf16_units_def)

lemma utf16_code_points_ascii: "list_all (\<lambda>c. c < 0x80) cs \<Longrightarrow> utf16_code_points cs = cs"
  by (induction cs rule: utf16_code_points.induct) simp_all

lemma concat_utf8_bytes: "list_all (\<lambda>c. c < 0x80) cs \<Longrightarrow> concat (map utf8_bytes cs) = cs"
  by (induction cs) (simp_all add: utf8_bytes_def)

lemma utf8_decode_ascii: "list_all (\<lambda>b. b < 0x80) bs \<Longrightarrow> utf8_decode bs = bs"
  by (simp add: utf8_decode_def utf8_decode_from_ascii concat_utf16_units)

lemma utf8_encode_ascii: "list_all (\<lambda>c. c < 0x80) cs \<Longrightarrow> utf8_encode cs = cs"
  by (simp add: utf8_encode_def utf16_code_points_ascii concat_utf8_bytes)

lemma utf8_round_trip_ascii:
  "list_all (\<lambda>b. b < 0x80) bs \<Longrightarrow> utf8_encode (utf8_decode bs) = bs"
  by (simp add: utf8_decode_ascii utf8_encode_ascii)

lemma ascii_bytes_ascii: "list_all (\<lambda>c. of_char c < (0x80::nat)) s \<Longrightarrow>
    list_all (\<lambda>b. b < 0x80) (ascii_bytes s)"
  by (simp add: ascii_bytes_def list_all_iff)

text \<open>
  Well-formed UTF-8 is unchanged by decoding and encoding again: the decoder reads the
  bytes of a scalar value back as that value, and the surrogate pair of a value is read
  back as the value.
\<close>

lemma decode_start_one:
  "b \<le> 0x7F \<Longrightarrow> utf8_decode_from 0 cp lower upper (b # bs) = b # utf8_decode_from 0 0 0x80 0xBF bs"
  by simp

lemma decode_start_two:
  "0xC2 \<le> b \<Longrightarrow> b \<le> 0xDF \<Longrightarrow>
   utf8_decode_from 0 cp lower upper (b # bs) = utf8_decode_from 1 (b mod 32) 0x80 0xBF bs"
  by simp

lemma decode_start_three:
  "0xE0 \<le> b \<Longrightarrow> b \<le> 0xEF \<Longrightarrow>
   utf8_decode_from 0 cp lower upper (b # bs) =
     utf8_decode_from 2 (b mod 16)
       (if b = 0xE0 then 0xA0 else 0x80) (if b = 0xED then 0x9F else 0xBF) bs"
  by simp

lemma decode_start_four:
  "0xF0 \<le> b \<Longrightarrow> b \<le> 0xF4 \<Longrightarrow>
   utf8_decode_from 0 cp lower upper (b # bs) =
     utf8_decode_from 3 (b mod 8)
       (if b = 0xF0 then 0x90 else 0x80) (if b = 0xF4 then 0x8F else 0xBF) bs"
  by simp

lemma decode_continue_last:
  "lower \<le> b \<Longrightarrow> b \<le> upper \<Longrightarrow>
   utf8_decode_from 1 cp lower upper (b # bs) =
     (cp * 64 + b mod 64) # utf8_decode_from 0 0 0x80 0xBF bs"
  by simp

lemma decode_continue:
  "1 < needed \<Longrightarrow> lower \<le> b \<Longrightarrow> b \<le> upper \<Longrightarrow>
   utf8_decode_from needed cp lower upper (b # bs) =
     utf8_decode_from (needed - 1) (cp * 64 + b mod 64) 0x80 0xBF bs"
  by simp

lemma decode_one_byte:
  assumes "cp < 0x80"
  shows "utf8_decode_from 0 0 0x80 0xBF (utf8_bytes cp @ rest) =
    cp # utf8_decode_from 0 0 0x80 0xBF rest"
  using assms by (simp add: utf8_bytes_def)

lemma add_mod_small: "x < n \<Longrightarrow> (k * n + x) mod n = (x::nat)"
  by simp

lemma decode_two_bytes:
  assumes "0x80 \<le> cp" and "cp < 0x800"
  shows "utf8_decode_from 0 0 0x80 0xBF (utf8_bytes cp @ rest) =
    cp # utf8_decode_from 0 0 0x80 0xBF rest"
proof -
  define h where "h = cp div 64"
  define l where "l = cp mod 64"
  have cp: "h * 64 + l = cp"
    by (simp add: h_def l_def)
  have l: "l < 64"
    by (simp add: l_def)
  have h: "2 \<le> h" "h < 32"
    using assms by (simp_all add: h_def)
  have b1: "0xC2 \<le> 192 + h" "192 + h \<le> 0xDF" and b2: "0x80 \<le> 128 + l" "128 + l \<le> 0xBF"
    using h l by simp_all
  have m: "(192 + h) mod 32 = h" "(128 + l) mod 64 = l"
    using add_mod_small[OF h(2), of 6] add_mod_small[OF l, of 2] by simp_all
  have bytes: "utf8_bytes cp = [192 + h, 128 + l]"
    using assms by (simp add: utf8_bytes_def h_def l_def)
  have "utf8_decode_from 0 0 0x80 0xBF ((192 + h) # (128 + l) # rest) =
      utf8_decode_from 1 ((192 + h) mod 32) 0x80 0xBF ((128 + l) # rest)"
    using b1 by (rule decode_start_two)
  also have "\<dots> = (h * 64 + (128 + l) mod 64) # utf8_decode_from 0 0 0x80 0xBF rest"
    unfolding m(1) using b2 by (rule decode_continue_last)
  finally show ?thesis
    by (simp only: bytes m cp append_Cons append_Nil)
qed

lemma decode_three_bytes:
  assumes "0x800 \<le> cp" and "cp < 0x10000" and "scalar_value cp"
  shows "utf8_decode_from 0 0 0x80 0xBF (utf8_bytes cp @ rest) =
    cp # utf8_decode_from 0 0 0x80 0xBF rest"
proof -
  define d where "d = cp div 64"
  define h where "h = cp div 4096"
  define m where "m = cp div 64 mod 64"
  define l where "l = cp mod 64"
  have "h = d div 64"
    unfolding h_def d_def by (simp add: div_mult2_eq[symmetric])
  then have d: "d = h * 64 + m"
    by (simp add: m_def d_def)
  have cp: "(h * 64 + m) * 64 + l = cp"
    unfolding d[symmetric] by (simp add: d_def l_def)
  have l: "l < 64" and m: "m < 64"
    by (simp_all add: l_def m_def)
  have h: "h < 16"
    using assms by (simp add: h_def)
  have dl: "32 \<le> d"
    using assms by (simp add: d_def)
  have lo: "h = 0 \<longrightarrow> 32 \<le> m"
    using d dl by simp
  have "cp < 0xD800 \<or> 0xE000 \<le> cp"
    using assms(3) by (auto simp: scalar_value_def)
  then have "d < 864 \<or> 896 \<le> d"
    by (auto simp: d_def)
  then have hi: "h = 13 \<longrightarrow> m < 32"
    using d m by auto
  have b1: "0xE0 \<le> 224 + h" "224 + h \<le> 0xEF"
    using h by simp_all
  have b2: "(if 224 + h = 0xE0 then 0xA0 else 0x80) \<le> 128 + m"
    "128 + m \<le> (if 224 + h = 0xED then 0x9F else 0xBF)"
    using lo hi m by auto
  have b3: "0x80 \<le> 128 + l" "128 + l \<le> 0xBF"
    using l by simp_all
  have md: "(224 + h) mod 16 = h" "(128 + m) mod 64 = m" "(128 + l) mod 64 = l"
    using add_mod_small[OF h, of 14] add_mod_small[OF m, of 2] add_mod_small[OF l, of 2]
    by simp_all
  have bytes: "utf8_bytes cp = [224 + h, 128 + m, 128 + l]"
    using assms by (simp add: utf8_bytes_def h_def m_def l_def)
  have "utf8_decode_from 0 0 0x80 0xBF ((224 + h) # (128 + m) # (128 + l) # rest) =
      utf8_decode_from 2 ((224 + h) mod 16)
        (if 224 + h = 0xE0 then 0xA0 else 0x80) (if 224 + h = 0xED then 0x9F else 0xBF)
        ((128 + m) # (128 + l) # rest)"
    using b1 by (rule decode_start_three)
  also have "\<dots> = utf8_decode_from (2 - 1) (h * 64 + (128 + m) mod 64) 0x80 0xBF
      ((128 + l) # rest)"
    unfolding md(1) using _ b2 by (rule decode_continue) simp
  also have "\<dots> = utf8_decode_from 1 (h * 64 + m) 0x80 0xBF ((128 + l) # rest)"
    by (simp add: md)
  also have "\<dots> = ((h * 64 + m) * 64 + (128 + l) mod 64) # utf8_decode_from 0 0 0x80 0xBF rest"
    using b3 by (rule decode_continue_last)
  finally show ?thesis
    by (simp only: bytes md cp append_Cons append_Nil)
qed

lemma decode_four_bytes:
  assumes "0x10000 \<le> cp" and "cp < 0x110000"
  shows "utf8_decode_from 0 0 0x80 0xBF (utf8_bytes cp @ rest) =
    cp # utf8_decode_from 0 0 0x80 0xBF rest"
proof -
  define d where "d = cp div 64"
  define e where "e = cp div 4096"
  define h where "h = cp div 262144"
  define k where "k = cp div 4096 mod 64"
  define m where "m = cp div 64 mod 64"
  define l where "l = cp mod 64"
  have "e = d div 64"
    unfolding e_def d_def by (simp add: div_mult2_eq[symmetric])
  then have d: "d = e * 64 + m"
    by (simp add: m_def d_def)
  have "h = e div 64"
    unfolding h_def e_def by (simp add: div_mult2_eq[symmetric])
  then have e: "e = h * 64 + k"
    by (simp add: k_def e_def)
  have cp: "((h * 64 + k) * 64 + m) * 64 + l = cp"
    unfolding e[symmetric] d[symmetric] by (simp add: d_def l_def)
  have l: "l < 64" and m: "m < 64" and k: "k < 64"
    by (simp_all add: l_def m_def k_def)
  have h: "h < 5"
    using assms by (simp add: h_def)
  have "16 \<le> e" "e < 272"
    using assms by (simp_all add: e_def)
  then have lo: "h = 0 \<longrightarrow> 16 \<le> k" and hi: "h = 4 \<longrightarrow> k < 16"
    using e by auto
  have b1: "0xF0 \<le> 240 + h" "240 + h \<le> 0xF4"
    using h by simp_all
  have b2: "(if 240 + h = 0xF0 then 0x90 else 0x80) \<le> 128 + k"
    "128 + k \<le> (if 240 + h = 0xF4 then 0x8F else 0xBF)"
    using lo hi k by auto
  have b3: "0x80 \<le> 128 + m" "128 + m \<le> 0xBF" and b4: "0x80 \<le> 128 + l" "128 + l \<le> 0xBF"
    using m l by simp_all
  have h8: "h < 8"
    using h by simp
  have md: "(240 + h) mod 8 = h" "(128 + k) mod 64 = k" "(128 + m) mod 64 = m"
    "(128 + l) mod 64 = l"
    using add_mod_small[OF h8, of 30] add_mod_small[OF k, of 2] add_mod_small[OF m, of 2]
      add_mod_small[OF l, of 2]
    by simp_all
  have bytes: "utf8_bytes cp = [240 + h, 128 + k, 128 + m, 128 + l]"
    using assms by (simp add: utf8_bytes_def h_def k_def m_def l_def)
  have "utf8_decode_from 0 0 0x80 0xBF ((240 + h) # (128 + k) # (128 + m) # (128 + l) # rest) =
      utf8_decode_from 3 ((240 + h) mod 8)
        (if 240 + h = 0xF0 then 0x90 else 0x80) (if 240 + h = 0xF4 then 0x8F else 0xBF)
        ((128 + k) # (128 + m) # (128 + l) # rest)"
    using b1 by (rule decode_start_four)
  also have "\<dots> = utf8_decode_from (3 - 1) (h * 64 + (128 + k) mod 64) 0x80 0xBF
      ((128 + m) # (128 + l) # rest)"
    unfolding md(1) using _ b2 by (rule decode_continue) simp
  also have "\<dots> = utf8_decode_from 2 (h * 64 + k) 0x80 0xBF ((128 + m) # (128 + l) # rest)"
    by (simp add: md)
  also have "\<dots> = utf8_decode_from (2 - 1) ((h * 64 + k) * 64 + (128 + m) mod 64) 0x80 0xBF
      ((128 + l) # rest)"
    using _ b3 by (rule decode_continue) simp
  also have "\<dots> = utf8_decode_from 1 ((h * 64 + k) * 64 + m) 0x80 0xBF ((128 + l) # rest)"
    by (simp add: md)
  also have "\<dots> = (((h * 64 + k) * 64 + m) * 64 + (128 + l) mod 64) #
      utf8_decode_from 0 0 0x80 0xBF rest"
    using b4 by (rule decode_continue_last)
  finally show ?thesis
    by (simp only: bytes md cp append_Cons append_Nil)
qed

lemma decode_scalar:
  assumes "scalar_value cp"
  shows "utf8_decode_from 0 0 0x80 0xBF (utf8_bytes cp @ rest) =
    cp # utf8_decode_from 0 0 0x80 0xBF rest"
proof -
  have "cp < 0x110000"
    using assms by (auto simp: scalar_value_def)
  then consider "cp < 0x80" | "0x80 \<le> cp" "cp < 0x800" | "0x800 \<le> cp" "cp < 0x10000"
    | "0x10000 \<le> cp" "cp < 0x110000"
    by linarith
  then show ?thesis
  proof cases
    case 1
    then show ?thesis by (rule decode_one_byte)
  next
    case 2
    then show ?thesis by (rule decode_two_bytes)
  next
    case 3
    then show ?thesis using assms by (rule decode_three_bytes)
  next
    case 4
    then show ?thesis by (rule decode_four_bytes)
  qed
qed

lemma decode_scalars:
  "list_all scalar_value cps \<Longrightarrow>
   utf8_decode_from 0 0 0x80 0xBF (concat (map utf8_bytes cps)) = cps"
proof (induction cps)
  case Nil
  then show ?case by simp
next
  case (Cons cp cps)
  then have "scalar_value cp" and ih: "utf8_decode_from 0 0 0x80 0xBF (concat (map utf8_bytes cps)) = cps"
    by simp_all
  then show ?case
    by (simp only: list.map concat.simps decode_scalar)
qed

lemma code_points_plain:
  "\<not> (0xD800 \<le> u \<and> u \<le> 0xDFFF) \<Longrightarrow> utf16_code_points (u # us) = u # utf16_code_points us"
  by (cases us) auto

lemma code_points_pair:
  "0xD800 \<le> u \<Longrightarrow> u \<le> 0xDBFF \<Longrightarrow> 0xDC00 \<le> l \<Longrightarrow> l \<le> 0xDFFF \<Longrightarrow>
   utf16_code_points (u # l # us) =
     (0x10000 + (u - 0xD800) * 1024 + (l - 0xDC00)) # utf16_code_points us"
  by simp

lemma code_points_units:
  assumes "scalar_value cp"
  shows "utf16_code_points (utf16_units cp @ us) = cp # utf16_code_points us"
proof (cases "cp < 0x10000")
  case True
  then have "\<not> (0xD800 \<le> cp \<and> cp \<le> 0xDFFF)"
    using assms by (auto simp: scalar_value_def)
  then have "utf16_code_points (cp # us) = cp # utf16_code_points us"
    by (rule code_points_plain)
  moreover have "utf16_units cp = [cp]"
    using True by (simp add: utf16_units_def)
  ultimately show ?thesis
    by (simp only: append_Cons append_Nil)
next
  case False
  define c where "c = cp - 0x10000"
  define h where "h = c div 1024"
  define l where "l = c mod 1024"
  have cp: "0x10000 + (h * 1024 + l) = cp"
    using False by (simp add: c_def h_def l_def)
  have "c < 0x100000"
    using assms False by (auto simp: scalar_value_def c_def)
  then have h: "h < 1024"
    by (simp add: h_def)
  have l: "l < 1024"
    by (simp add: l_def)
  have r: "0xD800 \<le> 0xD800 + h" "0xD800 + h \<le> 0xDBFF" "0xDC00 \<le> 0xDC00 + l" "0xDC00 + l \<le> 0xDFFF"
    using h l by simp_all
  have units: "utf16_units cp = [0xD800 + h, 0xDC00 + l]"
    using False by (simp add: utf16_units_def c_def h_def l_def)
  have "utf16_code_points ((0xD800 + h) # (0xDC00 + l) # us) =
      (0x10000 + (0xD800 + h - 0xD800) * 1024 + (0xDC00 + l - 0xDC00)) # utf16_code_points us"
    using r by (rule code_points_pair)
  also have "0x10000 + (0xD800 + h - 0xD800) * 1024 + (0xDC00 + l - 0xDC00) = cp"
    using cp by simp
  finally show ?thesis
    by (simp only: units append_Cons append_Nil)
qed

lemma code_points_scalars:
  "list_all scalar_value cps \<Longrightarrow> utf16_code_points (concat (map utf16_units cps)) = cps"
proof (induction cps)
  case Nil
  then show ?case by simp
next
  case (Cons cp cps)
  then have "scalar_value cp" and "utf16_code_points (concat (map utf16_units cps)) = cps"
    by simp_all
  then show ?case
    by (simp only: list.map concat.simps code_points_units)
qed

lemma utf8_round_trip:
  assumes "well_formed_utf8 bs"
  shows "utf8_encode (utf8_decode bs) = bs"
proof -
  from assms obtain cps where s: "list_all scalar_value cps" and bs: "bs = concat (map utf8_bytes cps)"
    unfolding well_formed_utf8_def by blast
  have "utf8_decode bs = concat (map utf16_units cps)"
    unfolding utf8_decode_def bs decode_scalars[OF s] ..
  then show ?thesis
    unfolding utf8_encode_def by (simp only: code_points_scalars[OF s] bs)
qed

lemma ascii_well_formed: "list_all (\<lambda>b. b < 0x80) bs \<Longrightarrow> well_formed_utf8 bs"
proof -
  assume a: "list_all (\<lambda>b. b < 0x80) bs"
  then have "list_all scalar_value bs"
    by (auto simp: list_all_iff scalar_value_def)
  moreover have "bs = concat (map utf8_bytes bs)"
    using a by (simp add: concat_utf8_bytes)
  ultimately show ?thesis
    unfolding well_formed_utf8_def by blast
qed

text \<open>The transform and the restore on the file system.\<close>

lemma capture_three:
  assumes "capture fs [a, b, c] = Inr snapshot"
  obtains ba bb bc where "files fs a = Some ba" "files fs b = Some bb" "files fs c = Some bc"
    "snapshot = [(a, utf8_decode ba), (b, utf8_decode bb), (c, utf8_decode bc)]"
  using assms by (auto simp: read_file_def split: option.splits sum.splits)

lemma round_trip_three:
  assumes "capture fs [a, b, c] = Inr snapshot" and "a \<noteq> b" and "a \<noteq> c" and "b \<noteq> c"
    and "a \<notin> unwritable fs" and "b \<notin> unwritable fs" and "c \<notin> unwritable fs"
  shows "\<exists>fs'. (case write_file fs a t of Inl e \<Rightarrow> Inl e | Inr fs1 \<Rightarrow> strip_files fs1 [b, c]) =
             Inr fs' \<and>
           restoreSources snapshot fs' =
             Inr (fs\<lparr>files := (\<lambda>p. if p \<in> {a, b, c}
                then map_option (\<lambda>content. utf8_encode (utf8_decode content)) (files fs p)
                else files fs p)\<rparr>)"
proof -
  from assms(1) obtain ba bb bc where
    f: "files fs a = Some ba" "files fs b = Some bb" "files fs c = Some bc"
    and snap: "snapshot = [(a, utf8_decode ba), (b, utf8_decode bb), (c, utf8_decode bc)]"
    by (rule capture_three)
  define fs' where
    "fs' = fs\<lparr>files := (files fs)(a \<mapsto> utf8_encode t,
       b \<mapsto> utf8_encode (stripVaporAttribute (utf8_decode bb)),
       c \<mapsto> utf8_encode (stripVaporAttribute (utf8_decode bc)))\<rparr>"
  have 1: "(case write_file fs a t of Inl e \<Rightarrow> Inl e | Inr fs1 \<Rightarrow> strip_files fs1 [b, c]) = Inr fs'"
    using f assms(2-7) by (simp add: fs'_def read_file_def write_file_def)
  have "restoreSources snapshot fs' =
      Inr (fs\<lparr>files := (files fs)(a \<mapsto> utf8_encode (utf8_decode ba),
        b \<mapsto> utf8_encode (utf8_decode bb), c \<mapsto> utf8_encode (utf8_decode bc))\<rparr>)"
    using assms(2-7) by (simp add: snap fs'_def write_file_def fun_upd_twist)
  moreover have "(files fs)(a \<mapsto> utf8_encode (utf8_decode ba),
        b \<mapsto> utf8_encode (utf8_decode bb), c \<mapsto> utf8_encode (utf8_decode bc)) =
      (\<lambda>p. if p \<in> {a, b, c}
                then map_option (\<lambda>content. utf8_encode (utf8_decode content)) (files fs p)
                else files fs p)"
    using f by (auto simp: fun_eq_iff)
  ultimately show ?thesis
    using 1 by auto
qed

lemma trackedFiles_distinct:
  "str ''example/src/main.ts'' \<noteq> str ''example/src/App.vue''"
  "str ''example/src/main.ts'' \<noteq> str ''example/src/components/HelloWorld.vue''"
  "str ''example/src/App.vue'' \<noteq> str ''example/src/components/HelloWorld.vue''"
  by (simp_all add: str_def)

lemma round_trip_core:
  assumes "originals fs = Inr snapshot" and "\<forall>p\<in>set trackedFiles. p \<notin> unwritable fs"
  shows "\<exists>fs'. applyClassicTransforms fs = Inr fs' \<and>
           restoreSources snapshot fs' = Inr (fs\<lparr>files := reencoded fs\<rparr>)"
proof -
  from assms(1) have c: "capture fs [str ''example/src/main.ts'', str ''example/src/App.vue'',
      str ''example/src/components/HelloWorld.vue''] = Inr snapshot"
    by (simp only: originals_def trackedFiles_def)
  have w: "str ''example/src/main.ts'' \<notin> unwritable fs"
    "str ''example/src/App.vue'' \<notin> unwritable fs"
    "str ''example/src/components/HelloWorld.vue'' \<notin> unwritable fs"
    using assms(2) by (simp_all add: trackedFiles_def)
  have r: "reencoded fs = (\<lambda>p. if p \<in> {str ''example/src/main.ts'', str ''example/src/App.vue'',
        str ''example/src/components/HelloWorld.vue''}
      then map_option (\<lambda>content. utf8_encode (utf8_decode content)) (files fs p)
      else files fs p)"
    by (simp add: reencoded_def[abs_def] trackedFiles_def)
  from round_trip_three[OF c trackedFiles_distinct w, of classic_main]
  show ?thesis
    unfolding applyClassicTransforms_def r by simp
qed

lemma originals_defined:
  assumes "\<forall>p\<in>set trackedFiles. files fs p \<noteq> None"
  shows "\<exists>snapshot. originals fs = Inr snapshot"
  using assms by (auto simp: originals_def trackedFiles_def read_file_def)

lemma restored_bytes_reencoded:
  assumes "\<forall>p\<in>set trackedFiles. files fs p \<noteq> None"
    and "\<forall>p\<in>set trackedFiles. p \<notin> unwritable fs"
  shows "restored_bytes fs p = reencoded fs p"
proof -
  from originals_defined[OF assms(1)] obtain snapshot where o: "originals fs = Inr snapshot"
    by blast
  from round_trip_core[OF o assms(2)] obtain fs' where
    "applyClassicTransforms fs = Inr fs'"
    "restoreSources snapshot fs' = Inr (fs\<lparr>files := reencoded fs\<rparr>)"
    by blast
  then show ?thesis
    by (simp add: restored_bytes_def transform_and_restore_def o)
qed

text \<open>
  C4, as stated, fails: an entry point saved in Latin-1 holds the byte \<open>0xE9\<close>, which
  is not UTF-8; it is read as U+FFFD, and the restore writes the three bytes of U+FFFD
  in its place.
\<close>

theorem restoreSources_round_trip_counterexample:
  "files invalid_files (str ''example/src/main.ts'') = Some [47, 47, 32, 99, 97, 102, 0xE9] \<and>
   restored_bytes invalid_files (str ''example/src/main.ts'') =
     Some [47, 47, 32, 99, 97, 102, 0xEF, 0xBF, 0xBD]"
proof -
  note d = trackedFiles_distinct
  have f: "files invalid_files (str ''example/src/main.ts'') = Some [47, 47, 32, 99, 97, 102, 0xE9]"
    using d by (simp add: invalid_files_def ascii_bytes_def)
  have e: "\<forall>p\<in>set trackedFiles. files invalid_files p \<noteq> None"
    using d by (simp add: trackedFiles_def invalid_files_def)
  have w: "\<forall>p\<in>set trackedFiles. p \<notin> unwritable invalid_files"
    by (simp add: invalid_files_def)
  have "utf8_encode (utf8_decode [47, 47, 32, 99, 97, 102, 0xE9]) =
      [47, 47, 32, 99, 97, 102, 0xEF, 0xBF, 0xBD]"
    by (simp add: utf8_decode_def utf8_encode_def utf16_units_def utf8_bytes_def)
  then have "reencoded invalid_files (str ''example/src/main.ts'') =
      Some [47, 47, 32, 99, 97, 102, 0xEF, 0xBF, 0xBD]"
    by (simp add: reencoded_def trackedFiles_def f)
  then show ?thesis
    using f restored_bytes_reencoded[OF e w] by simp
qed

text \<open>
  C4, amended: when the three tracked files were read at startup and can be written,
  the classic transform succeeds and the restore after it succeeds; it leaves in every
  tracked file, changed by the transform or not, the UTF-8 encoding of the text decoded
  at startup, and leaves every other file and the permissions as they were. When the
  bytes of every tracked file are well-formed UTF-8, the files after the restore are
  byte for byte the files before the transform.
\<close>

theorem restoreSources_round_trip:
  assumes "originals fs = Inr snapshot" and "\<forall>p\<in>set trackedFiles. p \<notin> unwritable fs"
  shows "\<exists>fs' fs''. applyClassicTransforms fs = Inr fs' \<and>
           restoreSources snapshot fs' = Inr fs'' \<and>
           unwritable fs'' = unwritable fs \<and>
           (\<forall>p. files fs'' p = reencoded fs p) \<and>
           ((\<forall>p\<in>set trackedFiles. \<forall>content. files fs p = Some content \<longrightarrow>
               well_formed_utf8 content) \<longrightarrow> fs'' = fs)"
proof -
  from round_trip_core[OF assms] obtain fs' where
    1: "applyClassicTransforms fs = Inr fs'"
    and 2: "restoreSources snapshot fs' = Inr (fs\<lparr>files := reencoded fs\<rparr>)"
    by blast
  have 3: "fs\<lparr>files := reencoded fs\<rparr> = fs"
    if "\<forall>p\<in>set trackedFiles. \<forall>content. files fs p = Some content \<longrightarrow>
               well_formed_utf8 content"
  proof -
    have "reencoded fs p = files fs p" for p
      using that by (cases "files fs p") (auto simp: reencoded_def utf8_round_trip)
    then have "reencoded fs = files fs"
      by (simp add: fun_eq_iff)
    then show ?thesis by simp
  qed
  from 1 2 3 show ?thesis
    by (intro exI[of _ fs'] exI[of _ "fs\<lparr>files := reencoded fs\<rparr>"]) simp
qed

text \<open>The sample files, all ASCII: captured, transformed, restored.\<close>

theorem restoreSources_round_trip_witness:
  "originals sample_files =
     Inr [(str ''example/src/main.ts'', str ''createVaporApp(RootComponent).mount()''),
          (str ''example/src/App.vue'', str ''<script setup vapor>''),
          (str ''example/src/components/HelloWorld.vue'', str ''<template/>'')] \<and>
   (\<exists>fs'. applyClassicTransforms sample_files = Inr fs' \<and>
      restoreSources
        [(str ''example/src/main.ts'', str ''createVaporApp(RootComponent).mount()''),
         (str ''example/src/App.vue'', str ''<script setup vapor>''),
         (str ''example/src/components/HelloWorld.vue'', str ''<template/>'')] fs' =
      Inr sample_files)"
proof -
  note d = trackedFiles_distinct
  have a: "list_all (\<lambda>b. b < 0x80) (ascii_bytes ''createVaporApp(RootComponent).mount()'')"
    "list_all (\<lambda>b. b < 0x80) (ascii_bytes ''<script setup vapor>'')"
    "list_all (\<lambda>b. b < 0x80) (ascii_bytes ''<template/>'')"
    by (simp_all add: ascii_bytes_def)
  have f: "files sample_files (str ''example/src/main.ts'') =
      Some (ascii_bytes ''createVaporApp(RootComponent).mount()'')"
    "files sample_files (str ''example/src/App.vue'') = Some (ascii_bytes ''<script setup vapor>'')"
    "files sample_files (str ''example/src/components/HelloWorld.vue'') =
      Some (ascii_bytes ''<template/>'')"
    using d by (simp_all add: sample_files_def)
  have o: "originals sample_files =
     Inr [(str ''example/src/main.ts'', str ''createVaporApp(RootComponent).mount()''),
          (str ''example/src/App.vue'', str ''<script setup vapor>''),
          (str ''example/src/components/HelloWorld.vue'', str ''<template/>'')]"
    unfolding originals_def trackedFiles_def
    by (simp add: read_file_def f utf8_decode_ascii[OF a(1)] utf8_decode_ascii[OF a(2)]
        utf8_decode_ascii[OF a(3)]) (simp add: ascii_bytes_def str_def)
  have w: "\<forall>p\<in>set trackedFiles. p \<notin> unwritable sample_files"
    by (simp add: sample_files_def)
  have r: "\<forall>p\<in>set trackedFiles. \<forall>content. files sample_files p = Some content \<longrightarrow>
      well_formed_utf8 content"
    using a by (auto simp: trackedFiles_def f ascii_well_formed)
  from restoreSources_round_trip[OF o w] r o show ?thesis
    by blast
qed

end
